theory Spec2Isabelle
  imports Complex_Main "HOL-Library.Multiset" "HOL-Library.List_Lexorder" "HOL-Library.Char_ord"
begin

section \<open>Python values the program works with\<close>

text \<open>
  The exceptions that the modelled code can raise, each with the text that \<open>str(exc)\<close>
  yields. A raise is the left injection of a sum type; a normal return is the right one.
\<close>

datatype py_exception =
    ValueError string
  | ZeroDivisionError string
  | AttributeError string
  | TypeError string
  | FileNotFoundError string
  | OSError string
  | Exception string

fun str_exc :: "py_exception \<Rightarrow> string" where
  "str_exc (ValueError m) = m"
| "str_exc (ZeroDivisionError m) = m"
| "str_exc (AttributeError m) = m"
| "str_exc (TypeError m) = m"
| "str_exc (FileNotFoundError m) = m"
| "str_exc (OSError m) = m"
| "str_exc (Exception m) = m"

subsection \<open>\<open>range(start, stop, step)\<close> and list slices\<close>

text \<open>
  The values a \<open>for\<close> loop over \<open>range(start, stop, step)\<close> visits. A positive step counts
  up while the index is below \<open>stop\<close>, a negative step counts down while it is above, and a
  zero step makes \<open>range\<close> raise \<open>ValueError\<close> before the loop body ever runs.
\<close>

function range_up :: "int \<Rightarrow> int \<Rightarrow> int \<Rightarrow> int list" where
  "range_up i stop step =
     (if 0 < step \<and> i < stop then i # range_up (i + step) stop step else [])"
  by pat_completeness auto
termination
  by (relation "measure (\<lambda>(i, stop, step). nat (stop - i))") auto

function range_down :: "int \<Rightarrow> int \<Rightarrow> int \<Rightarrow> int list" where
  "range_down i stop step =
     (if step < 0 \<and> stop < i then i # range_down (i + step) stop step else [])"
  by pat_completeness auto
termination
  by (relation "measure (\<lambda>(i, stop, step). nat (i - stop))") auto

declare range_up.simps [simp del]
declare range_down.simps [simp del]

definition py_range :: "int \<Rightarrow> int \<Rightarrow> int \<Rightarrow> py_exception + int list" where
  "py_range start stop step =
     (if step = 0 then Inl (ValueError ''range() arg 3 must not be zero'')
      else if 0 < step then Inr (range_up start stop step)
      else Inr (range_down start stop step))"

text \<open>
  \<open>xs[lo:hi]\<close>: a negative bound counts from the end, and both bounds are clamped to the
  list, so a slice never raises.
\<close>

definition slice_bound :: "int \<Rightarrow> nat \<Rightarrow> nat" where
  "slice_bound i n = (if i < 0 then nat (max (i + int n) 0) else min (nat i) n)"

definition py_slice :: "'a list \<Rightarrow> int \<Rightarrow> int \<Rightarrow> 'a list" where
  "py_slice xs lo hi =
     (let l = slice_bound lo (length xs); h = slice_bound hi (length xs)
      in take (h - l) (drop l xs))"

section \<open>The batch splitter\<close>

text \<open>
  \<open>create_batches(metrics_list, batch_size)\<close>: the loop appends the slice
  \<open>metrics_list[i:i + batch_size]\<close> for every \<open>i\<close> of
  \<open>range(0, len(metrics_list), batch_size)\<close>. The function has no check of its own on
  \<open>batch_size\<close>; the only raise is the one of \<open>range\<close>.
\<close>

definition create_batches :: "'a list \<Rightarrow> int \<Rightarrow> py_exception + 'a list list" where
  "create_batches metrics_list batch_size =
     (case py_range 0 (int (length metrics_list)) batch_size of
        Inl e \<Rightarrow> Inl e
      | Inr idxs \<Rightarrow>
          Inr (foldl (\<lambda>batches i. batches @ [py_slice metrics_list i (i + batch_size)]) [] idxs))"

section \<open>The metrics reader\<close>

subsection \<open>Strings\<close>

text \<open>
  A Python string is modelled as a \<open>string\<close> whose characters are the code points up to
  U+00FF. \<open>py_isspace\<close> is \<open>str.isspace\<close> on one such character: the ASCII white space
  \<open>\t \n \v \f \r\<close>, the separators U+001C to U+001F, the blank, U+0085 and U+00A0.
\<close>

definition py_isspace :: "char \<Rightarrow> bool" where
  "py_isspace c =
     (let n = (of_char c :: nat)
      in (9 \<le> n \<and> n \<le> 13) \<or> (28 \<le> n \<and> n \<le> 32) \<or> n = 133 \<or> n = 160)"

text \<open>\<open>s.strip()\<close>: white space is removed from both ends and nowhere else.\<close>

definition strip :: "string \<Rightarrow> string" where
  "strip s = rev (dropWhile py_isspace (rev (dropWhile py_isspace s)))"

text \<open>\<open>sep.join(parts)\<close>.\<close>

fun py_join :: "string \<Rightarrow> string list \<Rightarrow> string" where
  "py_join sep [] = []"
| "py_join sep [x] = x"
| "py_join sep (x # y # ys) = x @ sep @ py_join sep (y # ys)"

subsection \<open>Loaded JSON values\<close>

text \<open>
  What \<open>json.load\<close> hands to the reader: \<open>None\<close>, booleans, integers, strings, lists and
  dictionaries. A dictionary is an association list read with \<open>map_of\<close>. Numbers with a
  fraction or an exponent (Python floats) are not part of this model.
\<close>

datatype json =
    JNull
  | JBool bool
  | JInt int
  | JStr string
  | JList "json list"
  | JDict "(string \<times> json) list"

fun py_type_name :: "json \<Rightarrow> string" where
  "py_type_name JNull = ''NoneType''"
| "py_type_name (JBool b) = ''bool''"
| "py_type_name (JInt i) = ''int''"
| "py_type_name (JStr s) = ''str''"
| "py_type_name (JList xs) = ''list''"
| "py_type_name (JDict kvs) = ''dict''"

text \<open>Truth value of a loaded value, as \<open>if name and ...\<close> tests it.\<close>

fun py_truthy :: "json \<Rightarrow> bool" where
  "py_truthy JNull = False"
| "py_truthy (JBool b) = b"
| "py_truthy (JInt i) = (i \<noteq> 0)"
| "py_truthy (JStr s) = (s \<noteq> [])"
| "py_truthy (JList xs) = (xs \<noteq> [])"
| "py_truthy (JDict kvs) = (kvs \<noteq> [])"

definition no_attribute :: "json \<Rightarrow> string \<Rightarrow> py_exception" where
  "no_attribute v attr =
     AttributeError ([CHR 0x27] @ py_type_name v @ [CHR 0x27] @ '' object has no attribute ''
                     @ [CHR 0x27] @ attr @ [CHR 0x27])"

text \<open>\<open>v.get(key, default)\<close>: only a dictionary has the method.\<close>

fun py_get :: "json \<Rightarrow> string \<Rightarrow> json \<Rightarrow> py_exception + json" where
  "py_get (JDict kvs) key dflt = Inr (case map_of kvs key of None \<Rightarrow> dflt | Some v \<Rightarrow> v)"
| "py_get v key dflt = Inl (no_attribute v ''get'')"

text \<open>
  The items a \<open>for\<close> loop over a loaded value visits: the elements of a list, the keys of a
  dictionary, the characters of a string; anything else is not iterable.
\<close>

fun py_iter :: "json \<Rightarrow> py_exception + json list" where
  "py_iter (JList xs) = Inr xs"
| "py_iter (JDict kvs) = Inr (map (JStr \<circ> fst) kvs)"
| "py_iter (JStr s) = Inr (map (\<lambda>c. JStr [c]) s)"
| "py_iter v = Inl (TypeError ([CHR 0x27] @ py_type_name v @ [CHR 0x27] @ '' object is not iterable''))"

subsection \<open>Formatting one expression\<close>

text \<open>
  The list comprehension \<open>[part.strip() for part in expression if part.strip()]\<close>.
  A part that is not a string has no \<open>strip\<close> method; the first such part raises.
\<close>

fun clean_parts :: "json list \<Rightarrow> py_exception + string list" where
  "clean_parts [] = Inr []"
| "clean_parts (JStr part # rest) =
     (case clean_parts rest of
        Inl e \<Rightarrow> Inl e
      | Inr cleaned \<Rightarrow> if strip part \<noteq> [] then Inr (strip part # cleaned) else Inr cleaned)"
| "clean_parts (part # rest) = Inl (no_attribute part ''strip'')"

text \<open>
  \<open>_format_expression(expression)\<close>. The builtin \<open>str\<close>, which the last branch applies to
  a value that is neither a string nor a list nor \<open>None\<close>, is the parameter \<open>str_builtin\<close>.
\<close>

fun format_expression :: "(json \<Rightarrow> string) \<Rightarrow> json \<Rightarrow> py_exception + string" where
  "format_expression str_builtin (JStr s) = Inr (strip s)"
| "format_expression str_builtin (JList parts) =
     (case clean_parts parts of
        Inl e \<Rightarrow> Inl e
      | Inr clean \<Rightarrow> Inr (py_join '' '' clean))"
| "format_expression str_builtin JNull = Inr []"
| "format_expression str_builtin v = Inr (str_builtin v)"

subsection \<open>Reading the measures\<close>

text \<open>One record of the reader's result, \<open>{"name": name, "expression": formatted}\<close>.\<close>

record metric =
  m_name :: json
  m_expression :: string

text \<open>
  What opening the file and \<open>json.load\<close> come to; the parser itself is the library's.
\<close>

datatype load_result =
    NoSuchFile
  | DecodeError string
  | OtherError string
  | Loaded json

text \<open>One turn of the loop over the measures; \<open>simplified_metrics\<close> is the accumulator.\<close>

definition read_measure ::
  "(json \<Rightarrow> string) \<Rightarrow> metric list \<Rightarrow> json \<Rightarrow> py_exception + metric list" where
  "read_measure str_builtin simplified_metrics measure' =
     (case py_get measure' ''name'' (JStr []) of
        Inl e \<Rightarrow> Inl e
      | Inr name \<Rightarrow>
          (case py_get measure' ''expression'' (JStr []) of
             Inl e \<Rightarrow> Inl e
           | Inr expression \<Rightarrow>
               (case format_expression str_builtin expression of
                  Inl e \<Rightarrow> Inl e
                | Inr formatted_expression \<Rightarrow>
                    if py_truthy name \<and> formatted_expression \<noteq> []
                    then Inr (simplified_metrics
                              @ [\<lparr>m_name = name, m_expression = formatted_expression\<rparr>])
                    else Inr simplified_metrics)))"

fun read_measures ::
  "(json \<Rightarrow> string) \<Rightarrow> metric list \<Rightarrow> json list \<Rightarrow> py_exception + metric list" where
  "read_measures str_builtin simplified_metrics [] = Inr simplified_metrics"
| "read_measures str_builtin simplified_metrics (measure' # rest) =
     (case read_measure str_builtin simplified_metrics measure' of
        Inl e \<Rightarrow> Inl e
      | Inr simplified_metrics' \<Rightarrow> read_measures str_builtin simplified_metrics' rest)"

text \<open>The body of the \<open>try\<close> block once the file is loaded.\<close>

definition simplify_loaded :: "(json \<Rightarrow> string) \<Rightarrow> json \<Rightarrow> py_exception + metric list" where
  "simplify_loaded str_builtin data =
     (case py_get data ''measures'' (JList []) of
        Inl e \<Rightarrow> Inl e
      | Inr measures' \<Rightarrow>
          (case py_iter measures' of
             Inl e \<Rightarrow> Inl e
           | Inr items \<Rightarrow> read_measures str_builtin [] items))"

text \<open>
  \<open>read_metrics_to_simple_json(file_path)\<close> with its three handlers: a missing file is
  raised again as \<open>FileNotFoundError\<close>, a decoding error as \<open>ValueError\<close>, and every other
  exception as \<open>Exception\<close> with the original text appended.
\<close>

definition read_metrics_to_simple_json ::
  "(json \<Rightarrow> string) \<Rightarrow> (string \<Rightarrow> load_result) \<Rightarrow> string \<Rightarrow> py_exception + metric list" where
  "read_metrics_to_simple_json str_builtin load file_path =
     (case load file_path of
        NoSuchFile \<Rightarrow> Inl (FileNotFoundError (''Metrics file not found: '' @ file_path))
      | DecodeError msg \<Rightarrow>
          Inl (ValueError (''Invalid JSON format in '' @ file_path @ '': '' @ msg))
      | OtherError msg \<Rightarrow> Inl (Exception (''Error reading metrics file: '' @ msg))
      | Loaded data \<Rightarrow>
          (case simplify_loaded str_builtin data of
             Inl e \<Rightarrow> Inl (Exception (''Error reading metrics file: '' @ str_exc e))
           | Inr simplified_metrics \<Rightarrow> Inr simplified_metrics))"

subsection \<open>Measures as the input format describes them\<close>

text \<open>
  The vocabulary for stating what the reader keeps. The input format gives a measure an
  expression that is a string or a list of strings; \<open>expression_ok\<close> is that condition on
  lists, and a missing field reads as the empty string, as the two \<open>get\<close> calls have it.
\<close>

fun is_string :: "json \<Rightarrow> bool" where
  "is_string (JStr s) = True"
| "is_string v = False"

fun expression_ok :: "json \<Rightarrow> bool" where
  "expression_ok (JList parts) = list_all is_string parts"
| "expression_ok v = True"

definition measure_name :: "(string \<times> json) list \<Rightarrow> json" where
  "measure_name kvs = (case map_of kvs ''name'' of None \<Rightarrow> JStr [] | Some v \<Rightarrow> v)"

definition measure_expression :: "(string \<times> json) list \<Rightarrow> json" where
  "measure_expression kvs = (case map_of kvs ''expression'' of None \<Rightarrow> JStr [] | Some v \<Rightarrow> v)"

definition formatted_of :: "(json \<Rightarrow> string) \<Rightarrow> (string \<times> json) list \<Rightarrow> string" where
  "formatted_of str_builtin kvs =
     (case format_expression str_builtin (measure_expression kvs) of
        Inl e \<Rightarrow> []
      | Inr s \<Rightarrow> s)"

definition kept :: "(json \<Rightarrow> string) \<Rightarrow> (string \<times> json) list \<Rightarrow> bool" where
  "kept str_builtin kvs \<longleftrightarrow> py_truthy (measure_name kvs) \<and> formatted_of str_builtin kvs \<noteq> []"

section \<open>The world the batch engine runs in\<close>

subsection \<open>Numbers and times as text\<close>

text \<open>\<open>str(n)\<close> for a natural number: its decimal digits.\<close>

definition digit_char :: "nat \<Rightarrow> char" where
  "digit_char d = ''0123456789'' ! (d mod 10)"

function str_nat :: "nat \<Rightarrow> string" where
  "str_nat n = (if n < 10 then [digit_char n] else str_nat (n div 10) @ [digit_char (n mod 10)])"
  by pat_completeness auto
termination
  by (relation "measure id") auto

declare str_nat.simps [simp del]

text \<open>
  A reading of \<open>datetime.now()\<close>, and the two formats the program prints it in:
  \<open>%Y%m%d_%H%M%S\<close> for file names and \<open>%Y-%m-%d %H:%M:%S\<close> for headers. Every field but
  the year is padded to two digits; the microseconds appear in neither format.
\<close>

record datetime =
  year :: nat
  month :: nat
  day :: nat
  hour :: nat
  minute :: nat
  second :: nat
  microsecond :: nat

definition pad2 :: "nat \<Rightarrow> string" where
  "pad2 n = (if n < 10 then ''0'' @ str_nat n else str_nat n)"

definition strftime_file :: "datetime \<Rightarrow> string" where
  "strftime_file t =
     str_nat (year t) @ pad2 (month t) @ pad2 (day t) @ ''_''
     @ pad2 (hour t) @ pad2 (minute t) @ pad2 (second t)"

definition strftime_header :: "datetime \<Rightarrow> string" where
  "strftime_header t =
     str_nat (year t) @ ''-'' @ pad2 (month t) @ ''-'' @ pad2 (day t) @ '' ''
     @ pad2 (hour t) @ '':'' @ pad2 (minute t) @ '':'' @ pad2 (second t)"

subsection \<open>Lines of text\<close>

abbreviation LF :: char where "LF \<equiv> CHR 0x0A"
abbreviation CR :: char where "CR \<equiv> CHR 0x0D"

text \<open>\<open>sub in s\<close> and \<open>s.startswith(sub)\<close> on strings.\<close>

definition startswith :: "string \<Rightarrow> string \<Rightarrow> bool" where
  "startswith s sub \<longleftrightarrow> take (length sub) s = sub"

fun contains :: "string \<Rightarrow> string \<Rightarrow> bool" where
  "contains sub [] = (sub = [])"
| "contains sub (c # cs) = (startswith (c # cs) sub \<or> contains sub cs)"

text \<open>
  \<open>s.splitlines()\<close>: the line boundaries among the modelled characters are
  \<open>\n\<close>, \<open>\r\<close>, \<open>\r\n\<close>, \<open>\v\<close>, \<open>\f\<close>, U+001C to U+001E and U+0085; the
  boundaries are dropped, and a boundary at the very end opens no further line.
\<close>

definition is_linebreak :: "char \<Rightarrow> bool" where
  "is_linebreak c =
     (let n = (of_char c :: nat)
      in (10 \<le> n \<and> n \<le> 13) \<or> (28 \<le> n \<and> n \<le> 30) \<or> n = 133)"

fun splitlines_from :: "string \<Rightarrow> string \<Rightarrow> string list" where
  "splitlines_from cur [] = (if cur = [] then [] else [cur])"
| "splitlines_from cur [c] = (if is_linebreak c then [cur] else [cur @ [c]])"
| "splitlines_from cur (c # d # ds) =
     (if c = CR \<and> d = LF then cur # splitlines_from [] ds
      else if is_linebreak c then cur # splitlines_from [] (d # ds)
      else splitlines_from (cur @ [c]) (d # ds))"

definition splitlines :: "string \<Rightarrow> string list" where
  "splitlines s = splitlines_from [] s"

text \<open>
  Reading a text file: \<open>\r\n\<close> and a lone \<open>\r\<close> arrive as \<open>\n\<close>, and \<open>readlines()\<close>
  cuts after every \<open>\n\<close>, keeping it.
\<close>

fun universal_newlines :: "string \<Rightarrow> string" where
  "universal_newlines [] = []"
| "universal_newlines [c] = (if c = CR then [LF] else [c])"
| "universal_newlines (c # d # ds) =
     (if c = CR \<and> d = LF then LF # universal_newlines ds
      else if c = CR then LF # universal_newlines (d # ds)
      else c # universal_newlines (d # ds))"

fun readlines_from :: "string \<Rightarrow> string \<Rightarrow> string list" where
  "readlines_from cur [] = (if cur = [] then [] else [cur])"
| "readlines_from cur (c # cs) =
     (if c = LF then (cur @ [c]) # readlines_from [] cs else readlines_from (cur @ [c]) cs)"

definition readlines :: "string \<Rightarrow> string list" where
  "readlines content = readlines_from [] (universal_newlines content)"

text \<open>The count both writers report: the lines that contain \<open>name:\<close>.\<close>

definition count_name_lines :: "string list \<Rightarrow> nat" where
  "count_name_lines lines = length (filter (contains ''name:'') lines)"

subsection \<open>Files and the clock\<close>

text \<open>
  The part of the machine the engine touches. \<open>files\<close> maps a path, as the program spells
  it, to the text stored there; a file is listed under one spelling, and paths are compared
  as strings. \<open>open_error\<close> says for which paths opening for writing
  fails (a missing folder, no permission) and with what. \<open>clock\<close> lists what the successive
  readings of \<open>datetime.now()\<close> return, and \<open>ticks\<close> counts the readings made so far.
\<close>

record world =
  files :: "(string \<times> string) list"
  open_error :: "string \<Rightarrow> py_exception option"
  clock :: "nat \<Rightarrow> datetime"
  ticks :: nat

definition now :: "world \<Rightarrow> datetime \<times> world" where
  "now w = (clock w (ticks w), w\<lparr>ticks := Suc (ticks w)\<rparr>)"

fun store :: "string \<Rightarrow> string \<Rightarrow> (string \<times> string) list \<Rightarrow> (string \<times> string) list" where
  "store path content [] = [(path, content)]"
| "store path content ((p, c) # fs) =
     (if p = path then (path, content) # fs else (p, c) # store path content fs)"

text \<open>\<open>os.path.join(folder, name)\<close> and \<open>os.path.basename(path)\<close> on a POSIX system.\<close>

definition os_path_join :: "string \<Rightarrow> string \<Rightarrow> string" where
  "os_path_join folder name =
     (if startswith name ''/'' then name
      else if folder = [] \<or> last folder = CHR ''/'' then folder @ name
      else folder @ ''/'' @ name)"

definition basename :: "string \<Rightarrow> string" where
  "basename path = rev (takeWhile (\<lambda>c. c \<noteq> CHR ''/'') (rev path))"

text \<open>
  \<open>glob.glob(os.path.join(folder, "converted_metrics_*.txt"))\<close>. When \<open>glob\<close> reads
  the folder name literally (it has none of the wildcard characters \<open>*\<close>, \<open>?\<close>, \<open>[\<close>,
  and no doubled slash at its end, which \<open>glob\<close> would drop), the matches are the stored
  paths that are \<open>folder\<close> joined with a file name that starts with \<open>converted_metrics_\<close>
  and ends with \<open>.txt\<close>, each path once. Otherwise \<open>glob\<close> expands the folder name as a
  pattern of its own; that expansion is the library's, and the parameter \<open>wildcard_glob\<close>
  gives its answer for the stored files and the pattern.
\<close>

definition is_batch_artifact :: "string \<Rightarrow> bool" where
  "is_batch_artifact name \<longleftrightarrow>
     startswith name ''converted_metrics_'' \<and> startswith (rev name) (rev ''.txt'')
     \<and> length ''converted_metrics_'' + length ''.txt'' \<le> length name
     \<and> CHR ''/'' \<notin> set name"

definition in_folder :: "string \<Rightarrow> string \<Rightarrow> bool" where
  "in_folder folder path \<longleftrightarrow>
     startswith path (os_path_join folder [])
     \<and> is_batch_artifact (drop (length (os_path_join folder [])) path)"

definition literal_folder :: "string \<Rightarrow> bool" where
  "literal_folder folder \<longleftrightarrow>
     set folder \<inter> set ''*?['' = {} \<and> \<not> startswith (rev folder) ''//''"

definition glob_artifacts ::
  "((string \<times> string) list \<Rightarrow> string \<Rightarrow> string list) \<Rightarrow> string \<Rightarrow> world \<Rightarrow> string list" where
  "glob_artifacts wildcard_glob folder w =
     (if literal_folder folder
      then filter (in_folder folder) (remdups (map fst (files w)))
      else wildcard_glob (files w) (os_path_join folder ''converted_metrics_*.txt''))"

section \<open>The batch engine\<close>

subsection \<open>Saving one batch's text\<close>

text \<open>
  \<open>save_conversion_results(results, output_folder)\<close>. The file name is made from the
  first clock reading, cut to the second. Opening the file is the step that can fail; when it
  succeeds the file at that path is created, or replaced when it is already there, and the
  header with the second clock reading and the count of \<open>name:\<close> lines goes before the text.
\<close>

definition artifact_text :: "datetime \<Rightarrow> string \<Rightarrow> string" where
  "artifact_text t results =
     ''# DAX to SparkSQL UC Metric View Conversion Results'' @ [LF]
     @ ''# Generated on: '' @ strftime_header t @ [LF]
     @ ''# Total conversions: '' @ str_nat (count_name_lines (splitlines results)) @ [LF]
     @ [LF] @ replicate 80 CHR ''='' @ [LF, LF]
     @ results"

text \<open>The header alone: what \<open>artifact_text\<close> puts before the translated text.\<close>

definition artifact_header :: "datetime \<Rightarrow> string \<Rightarrow> string" where
  "artifact_header t results =
     ''# DAX to SparkSQL UC Metric View Conversion Results'' @ [LF]
     @ ''# Generated on: '' @ strftime_header t @ [LF]
     @ ''# Total conversions: '' @ str_nat (count_name_lines (splitlines results)) @ [LF]
     @ [LF] @ replicate 80 CHR ''='' @ [LF, LF]"

definition save_conversion_results ::
  "string \<Rightarrow> string \<Rightarrow> world \<Rightarrow> (py_exception + string) \<times> world" where
  "save_conversion_results results output_folder w =
     (let (t1, w1) = now w;
          filename = ''converted_metrics_'' @ strftime_file t1 @ ''.txt'';
          filepath = os_path_join output_folder filename
      in case open_error w1 filepath of
           Some e \<Rightarrow> (Inl e, w1)
         | None \<Rightarrow>
             (let (t2, w2) = now w1
              in (Inr filepath,
                  w2\<lparr>files := store filepath (artifact_text t2 results) (files w2)\<rparr>)))"

subsection \<open>The worker\<close>

text \<open>
  \<open>process_metrics_batch(batch_name, metrics_data, thread_id)\<close>. \<open>dumps\<close> is
  \<open>json.dumps\<close> on a batch and \<open>convert\<close> is the call of the external translator, which
  either raises or returns text; both are parameters. The function has no handler: what the
  translator or the save raises leaves the function. The prints, the timing and the
  \<open>getsize\<close> of the file just written are left out.
\<close>

definition process_metrics_batch ::
  "('u list \<Rightarrow> string) \<Rightarrow> (string \<Rightarrow> py_exception + string) \<Rightarrow>
   string \<Rightarrow> 'u list \<Rightarrow> nat \<Rightarrow> world \<Rightarrow>
   (py_exception + string \<times> string \<times> nat) \<times> world" where
  "process_metrics_batch dumps convert batch_name metrics_data thread_id w =
     (let dax_expressions = dumps metrics_data
      in case convert dax_expressions of
           Inl e \<Rightarrow> (Inl e, w)
         | Inr results \<Rightarrow>
             (case save_conversion_results results ''uc_converted_metrics'' w of
                (Inl e, w') \<Rightarrow> (Inl e, w')
              | (Inr saved_file, w') \<Rightarrow> (Inr (results, saved_file, length metrics_data), w')))"

subsection \<open>The orchestrator\<close>

text \<open>
  One entry of \<open>all_results\<close>. The key \<open>error\<close> is present only in the entry of a failed
  batch, so \<open>'error' in r\<close> is \<open>r_error r \<noteq> None\<close>.
\<close>

record batch_result =
  r_batch :: string
  r_batch_num :: nat
  r_file :: "string option"
  r_count :: nat
  r_error :: "string option"

definition batch_label :: "nat \<Rightarrow> string" where
  "batch_label i = ''Batch '' @ str_nat i"

text \<open>
  The two branches around \<open>future.result()\<close>: the worker's triple becomes a success
  entry, and an exception becomes a failure entry with no file and count \<open>0\<close>.
\<close>

fun result_entry :: "nat \<Rightarrow> (py_exception + string \<times> string \<times> nat) \<Rightarrow> batch_result" where
  "result_entry batch_num (Inr (results, saved_file, count')) =
     \<lparr>r_batch = batch_label batch_num, r_batch_num = batch_num,
      r_file = Some saved_file, r_count = count', r_error = None\<rparr>"
| "result_entry batch_num (Inl exc) =
     \<lparr>r_batch = batch_label batch_num, r_batch_num = batch_num,
      r_file = None, r_count = 0, r_error = Some (str_exc exc)\<rparr>"

text \<open>
  The pool. Workers translate side by side, but each save runs under \<open>file_lock\<close>, so the
  saves happen one after another in some order: \<open>save_order\<close> lists the batch numbers
  (from \<open>1\<close>) in the order in which their workers run. \<open>futures\<close> holds what each future
  ends with. A number that names no batch, or a batch that has run, is passed over.
\<close>

fun run_workers ::
  "('u list \<Rightarrow> string) \<Rightarrow> (string \<Rightarrow> py_exception + string) \<Rightarrow> 'u list list \<Rightarrow>
   nat list \<Rightarrow> (nat \<Rightarrow> (py_exception + string \<times> string \<times> nat) option) \<Rightarrow> world \<Rightarrow>
   (nat \<Rightarrow> (py_exception + string \<times> string \<times> nat) option) \<times> world" where
  "run_workers dumps convert metric_batches [] futures w = (futures, w)"
| "run_workers dumps convert metric_batches (i # rest) futures w =
     (if 1 \<le> i \<and> i \<le> length metric_batches \<and> futures i = None
      then (let (outcome, w') =
                  process_metrics_batch dumps convert (batch_label i) (metric_batches ! (i - 1)) i w
            in run_workers dumps convert metric_batches rest (futures(i \<mapsto> outcome)) w')
      else run_workers dumps convert metric_batches rest futures w)"

text \<open>
  The loop over \<open>as_completed\<close>: \<open>completion_order\<close> lists the batch numbers in the order
  in which their futures are handed out, and each one appends its entry.
\<close>

fun collect_results ::
  "(nat \<Rightarrow> (py_exception + string \<times> string \<times> nat) option) \<Rightarrow> nat list \<Rightarrow>
   batch_result list \<Rightarrow> batch_result list" where
  "collect_results futures [] all_results = all_results"
| "collect_results futures (batch_num # rest) all_results =
     (case futures batch_num of
        None \<Rightarrow> collect_results futures rest all_results
      | Some outcome \<Rightarrow>
          collect_results futures rest (all_results @ [result_entry batch_num outcome]))"

text \<open>
  \<open>process_batches_parallel(metric_batches, max_workers)\<close>. The executor refuses a
  pool size that is not positive. After the pool is done the function prints the average
  time per batch, \<open>total_time / len(metric_batches)\<close>: with no batch that division raises
  before the list is sorted and returned.
\<close>

definition process_batches_parallel ::
  "('u list \<Rightarrow> string) \<Rightarrow> (string \<Rightarrow> py_exception + string) \<Rightarrow> 'u list list \<Rightarrow> int \<Rightarrow>
   nat list \<Rightarrow> nat list \<Rightarrow> world \<Rightarrow> (py_exception + batch_result list) \<times> world" where
  "process_batches_parallel dumps convert metric_batches max_workers save_order completion_order w =
     (if max_workers \<le> 0 then (Inl (ValueError ''max_workers must be greater than 0''), w)
      else
        (let (futures, w') = run_workers dumps convert metric_batches save_order (\<lambda>i. None) w;
             all_results = collect_results futures completion_order []
         in if length metric_batches = 0
            then (Inl (ZeroDivisionError ''float division by zero''), w')
            else (Inr (sort_key r_batch_num all_results), w')))"

subsection \<open>Where a worker starts\<close>

text \<open>
  The path \<open>save_conversion_results\<close> gives an artifact in the default folder when the clock
  reads \<open>t\<close>.
\<close>

definition artifact_path :: "datetime \<Rightarrow> string" where
  "artifact_path t =
     os_path_join ''uc_converted_metrics'' (''converted_metrics_'' @ strftime_file t @ ''.txt'')"

text \<open>
  The state in which the worker of batch \<open>n\<close> starts when the pool runs the workers in
  \<open>save_order\<close>: the state the workers before it have left.
\<close>

fun worker_world ::
  "('u list \<Rightarrow> string) \<Rightarrow> (string \<Rightarrow> py_exception + string) \<Rightarrow> 'u list list \<Rightarrow>
   nat list \<Rightarrow> (nat \<Rightarrow> (py_exception + string \<times> string \<times> nat) option) \<Rightarrow> world \<Rightarrow>
   nat \<Rightarrow> world" where
  "worker_world dumps convert metric_batches [] futures w n = w"
| "worker_world dumps convert metric_batches (i # rest) futures w n =
     (if 1 \<le> i \<and> i \<le> length metric_batches \<and> futures i = None
      then (if i = n then w
            else (let (outcome, w') =
                        process_metrics_batch dumps convert (batch_label i) (metric_batches ! (i - 1)) i w
                  in worker_world dumps convert metric_batches rest (futures(i \<mapsto> outcome)) w' n))
      else worker_world dumps convert metric_batches rest futures w n)"

subsection \<open>The combiner\<close>

text \<open>
  \<open>content_start\<close>: the index of the first line that is not blank and starts with
  neither \<open>#\<close> nor \<open>=\<close>, and \<open>0\<close> when there is no such line.
\<close>

definition is_content_line :: "string \<Rightarrow> bool" where
  "is_content_line line \<longleftrightarrow>
     strip line \<noteq> [] \<and> \<not> startswith line ''#'' \<and> \<not> startswith line ''=''"

fun content_start_from :: "nat \<Rightarrow> string list \<Rightarrow> nat" where
  "content_start_from j [] = 0"
| "content_start_from j (line # rest) =
     (if is_content_line line then j else content_start_from (Suc j) rest)"

text \<open>
  The loop over the sorted artifacts. \<open>i\<close> is the running number from \<open>enumerate\<close>,
  \<open>written\<close> is what has been written to the combined file so far, and
  \<open>total_conversions\<close> is the running count. Opening an artifact that is not there raises.
\<close>

definition batch_section :: "nat \<Rightarrow> string \<Rightarrow> string list \<Rightarrow> string" where
  "batch_section i file_path lines =
     [LF] @ replicate 60 CHR ''#'' @ [LF]
     @ ''# BATCH '' @ str_nat i @ '' - Source: '' @ basename file_path @ [LF]
     @ replicate 60 CHR ''#'' @ [LF, LF]
     @ concat (drop (content_start_from 0 lines) lines)
     @ [LF]"

fun combine_files ::
  "world \<Rightarrow> nat \<Rightarrow> string list \<Rightarrow> string \<Rightarrow> nat \<Rightarrow> py_exception + string \<times> nat" where
  "combine_files w i [] written total_conversions = Inr (written, total_conversions)"
| "combine_files w i (file_path # rest) written total_conversions =
     (case map_of (files w) file_path of
        None \<Rightarrow> Inl (FileNotFoundError file_path)
      | Some content \<Rightarrow>
          (let lines = readlines content;
               batch_conversions = count_name_lines lines
           in combine_files w (Suc i) rest
                (written @ batch_section i file_path lines)
                (total_conversions + batch_conversions)))"

definition combined_header :: "datetime \<Rightarrow> nat \<Rightarrow> string" where
  "combined_header t n_files =
     ''# COMBINED DAX to SparkSQL UC Metric View Conversion Results'' @ [LF]
     @ ''# Generated on: '' @ strftime_header t @ [LF]
     @ ''# Combined from '' @ str_nat n_files @ '' batch files'' @ [LF]
     @ [LF] @ replicate 100 CHR ''='' @ [LF, LF]"

definition combined_footer :: "datetime \<Rightarrow> nat \<Rightarrow> nat \<Rightarrow> string" where
  "combined_footer t total_conversions n_files =
     [LF] @ replicate 100 CHR ''='' @ [LF]
     @ ''# SUMMARY: Total '' @ str_nat total_conversions @ '' metrics converted from ''
       @ str_nat n_files @ '' batches'' @ [LF]
     @ ''# Combined file generated: '' @ strftime_header t @ [LF]
     @ replicate 100 CHR ''='' @ [LF]"

text \<open>
  \<open>combine_all_results(output_folder)\<close>. With no artifact it returns \<open>None\<close> before
  anything is read from the clock or written. Otherwise the combined file is opened, which
  empties it, before the artifacts are read, and it holds header, sections and footer when
  the function returns its path.
\<close>

definition combine_all_results ::
  "((string \<times> string) list \<Rightarrow> string \<Rightarrow> string list) \<Rightarrow> string \<Rightarrow> world \<Rightarrow>
   (py_exception + string option) \<times> world" where
  "combine_all_results wildcard_glob output_folder w =
     (let result_files = sort (glob_artifacts wildcard_glob output_folder w)
      in if result_files = [] then (Inr None, w)
         else
           (let (t1, w1) = now w;
                combined_filename = ''combined_all_metrics_'' @ strftime_file t1 @ ''.txt'';
                combined_filepath = os_path_join output_folder combined_filename
            in case open_error w1 combined_filepath of
                 Some e \<Rightarrow> (Inl e, w1)
               | None \<Rightarrow>
                   (let w2 = w1\<lparr>files := store combined_filepath [] (files w1)\<rparr>;
                        (t2, w3) = now w2;
                        header = combined_header t2 (length result_files)
                    in case combine_files w3 1 result_files header 0 of
                         Inl e \<Rightarrow> (Inl e, w3\<lparr>files := store combined_filepath header (files w3)\<rparr>)
                       | Inr (written, total_conversions) \<Rightarrow>
                           (let (t3, w4) = now w3;
                                combined_text = written
                                  @ combined_footer t3 total_conversions (length result_files)
                            in (Inr (Some combined_filepath),
                                w4\<lparr>files := store combined_filepath combined_text (files w4)\<rparr>)))))"

text \<open>
  \<open>new_artifact before after i r p\<close>: the worker of batch \<open>i\<close> had not run in \<open>before\<close>
  and has ended in \<open>after\<close> with the translated text \<open>r\<close> saved at the path \<open>p\<close>.
\<close>

definition new_artifact ::
  "(nat \<Rightarrow> (py_exception + string \<times> string \<times> nat) option) \<Rightarrow>
   (nat \<Rightarrow> (py_exception + string \<times> string \<times> nat) option) \<Rightarrow> nat \<Rightarrow> string \<Rightarrow> string \<Rightarrow> bool" where
  "new_artifact before after i r p \<longleftrightarrow> before i = None \<and> (\<exists>k. after i = Some (Inr (r, p, k)))"

section \<open>Properties of the batch splitter\<close>

subsection \<open>The loop as a map over the visited indices\<close>

lemma foldl_append_map: "foldl (\<lambda>acc i. acc @ [f i]) a xs = a @ map f xs"
  by (induction xs arbitrary: a) simp_all

lemma py_slice_window:
  assumes "0 \<le> i" "0 < b"
  shows "py_slice xs i (i + b) = take (nat b) (drop (nat i) xs)"
proof (cases "nat i \<le> length xs")
  case True
  with assms show ?thesis
    by (simp add: py_slice_def slice_bound_def Let_def min_def nat_add_distrib)
next
  case False
  with assms show ?thesis
    by (simp add: py_slice_def slice_bound_def Let_def min_def)
qed

lemma length_range_up:
  "0 < b \<Longrightarrow> length (range_up i n b) = nat ((n - i + b - 1) div b)"
proof (induction i n b rule: range_up.induct)
  case (1 i stop step)
  show ?case
  proof (cases "i < stop")
    case True
    have "stop - i + step - 1 = (stop - (i + step) + step - 1) + step" by simp
    then have "(stop - i + step - 1) div step = ((stop - (i + step) + step - 1) + step) div step"
      by (simp only:)
    also have "\<dots> = (stop - (i + step) + step - 1) div step + 1"
      using 1(2) by (simp only: div_add_self2)
    finally have "(stop - i + step - 1) div step = (stop - (i + step) + step - 1) div step + 1" .
    moreover have "0 \<le> (stop - (i + step) + step - 1) div step"
      using True 1(2) by (simp add: pos_imp_zdiv_nonneg_iff)
    ultimately show ?thesis
      using 1 True by (subst range_up.simps) (simp add: nat_add_distrib)
  next
    case False
    then have "stop - i + step - 1 \<le> step - 1" by simp
    then have "(stop - i + step - 1) div step \<le> (step - 1) div step"
      using 1(2) by (rule zdiv_mono1)
    also have "(step - 1) div step = 0"
      using 1(2) by (simp add: div_pos_pos_trivial)
    finally have "(stop - i + step - 1) div step \<le> 0" .
    with False show ?thesis by (subst range_up.simps) simp
  qed
qed

lemma nth_range_up:
  "0 < b \<Longrightarrow> k < length (range_up i n b) \<Longrightarrow> range_up i n b ! k = i + int k * b"
proof (induction i n b arbitrary: k rule: range_up.induct)
  case (1 i stop step)
  from 1(3) have lt: "i < stop" by (subst (asm) range_up.simps) (auto split: if_splits)
  show ?case
  proof (cases k)
    case 0
    with lt 1(2) show ?thesis by (subst range_up.simps) simp
  next
    case (Suc j)
    with 1(3) lt have "j < length (range_up (i + step) stop step)"
      by (subst (asm) range_up.simps) (simp split: if_splits)
    with 1 lt Suc show ?thesis
      by (subst range_up.simps) (simp add: algebra_simps)
  qed
qed

lemma concat_windows:
  "0 < b \<Longrightarrow> 0 \<le> i \<Longrightarrow>
   concat (map (\<lambda>j. take (nat b) (drop (nat j) xs)) (range_up i (int (length xs)) b)) = drop (nat i) xs"
proof (induction i "int (length xs)" b rule: range_up.induct)
  case (1 i step)
  show ?case
  proof (cases "i < int (length xs)")
    case True
    have d: "drop (nat (i + step)) xs = drop (nat step) (drop (nat i) xs)"
      using 1(2,3) by (simp add: nat_add_distrib add.commute)
    have "concat (map (\<lambda>j. take (nat step) (drop (nat j) xs)) (range_up i (int (length xs)) step))
        = take (nat step) (drop (nat i) xs)
          @ concat (map (\<lambda>j. take (nat step) (drop (nat j) xs)) (range_up (i + step) (int (length xs)) step))"
      using True 1(2) by (subst range_up.simps) simp
    also have "\<dots> = take (nat step) (drop (nat i) xs) @ drop (nat step) (drop (nat i) xs)"
      using 1 True d by simp
    also have "\<dots> = drop (nat i) xs"
      by (rule append_take_drop_id)
    finally show ?thesis .
  next
    case False
    with 1 show ?thesis by (subst range_up.simps) simp
  qed
qed

lemma ceil_div: "0 < (b::int) \<Longrightarrow> \<lceil>real_of_int n / real_of_int b\<rceil> = (n + b - 1) div b"
proof -
  assume b: "0 < b"
  define q where "q = n div b"
  define r where "r = n mod b"
  have n: "n = b * q + r" and r0: "0 \<le> r" and rb: "r < b"
    using b by (simp_all add: q_def r_def)
  have c: "\<lceil>real_of_int n / real_of_int b\<rceil> = - (- n div b)"
    by (rule ceiling_divide_eq_div)
  have "(n + b - 1) div b = - (- n div b)"
  proof (cases "r = 0")
    case True
    have e1: "n + b - 1 = b * q + (b - 1)" using n True by simp
    have "0 \<le> b - 1" "b - 1 < b" using b by simp_all
    with e1 have d1: "(n + b - 1) div b = q" by (rule int_div_pos_eq)
    have e2: "- n = b * (- q) + 0" using n True by simp
    have "(0::int) \<le> 0" "0 < b" using b by simp_all
    with e2 have d2: "- n div b = - q" by (rule int_div_pos_eq)
    from d1 d2 show ?thesis by simp
  next
    case False
    have e1: "n + b - 1 = b * (q + 1) + (r - 1)" using n by (simp add: algebra_simps)
    have "0 \<le> r - 1" "r - 1 < b" using r0 rb False by simp_all
    with e1 have d1: "(n + b - 1) div b = q + 1" by (rule int_div_pos_eq)
    have e2: "- n = b * (- q - 1) + (b - r)" using n by (simp add: algebra_simps)
    have "0 \<le> b - r" "b - r < b" using r0 rb False by simp_all
    with e2 have d2: "- n div b = - q - 1" by (rule int_div_pos_eq)
    from d1 d2 show ?thesis by simp
  qed
  with c show ?thesis by (simp only:)
qed

lemma create_batches_pos:
  assumes "0 < b"
  shows "create_batches xs b =
         Inr (map (\<lambda>i. take (nat b) (drop (nat i) xs)) (range_up 0 (int (length xs)) b))"
proof -
  have nonneg: "\<forall>i \<in> set (range_up j (int (length xs)) b). 0 \<le> i" if "0 \<le> j" for j
    using assms that
  proof (induction j "int (length xs)" b rule: range_up.induct)
    case (1 i step)
    then show ?case by (subst range_up.simps) auto
  qed
  have "map (\<lambda>i. py_slice xs i (i + b)) (range_up 0 (int (length xs)) b)
      = map (\<lambda>i. take (nat b) (drop (nat i) xs)) (range_up 0 (int (length xs)) b)"
    using nonneg[of 0] assms by (intro map_cong refl py_slice_window) auto
  with assms show ?thesis
    by (simp add: create_batches_def py_range_def foldl_append_map)
qed

lemma nat_ceil_div:
  assumes "0 < b"
  shows "nat ((int n + b - 1) div b) = (n + nat b - 1) div nat b"
proof -
  define B where "B = nat b"
  have B: "b = int B" "0 < B" using assms by (simp_all add: B_def)
  have "int n + int B - 1 = int (n + B - 1)" using B(2) by simp
  then have "(int n + int B - 1) div int B = int ((n + B - 1) div B)"
    by (simp only: zdiv_int)
  then show ?thesis using B by simp
qed

lemma create_batches_chunks:
  assumes "0 < b"
  shows "create_batches xs b =
         Inr (map (\<lambda>k. take (nat b) (drop (k * nat b) xs)) [0..<(length xs + nat b - 1) div nat b])"
proof -
  let ?r = "range_up 0 (int (length xs)) b"
  have len: "length ?r = (length xs + nat b - 1) div nat b"
    using length_range_up[OF assms, of 0 "int (length xs)"] nat_ceil_div[OF assms, of "length xs"]
    by simp
  have "map (\<lambda>i. take (nat b) (drop (nat i) xs)) ?r
      = map (\<lambda>k. take (nat b) (drop (k * nat b) xs)) [0..<(length xs + nat b - 1) div nat b]"
  proof (rule nth_equalityI)
    show "length (map (\<lambda>i. take (nat b) (drop (nat i) xs)) ?r)
        = length (map (\<lambda>k. take (nat b) (drop (k * nat b) xs)) [0..<(length xs + nat b - 1) div nat b])"
      using len by simp
  next
    fix k assume "k < length (map (\<lambda>i. take (nat b) (drop (nat i) xs)) ?r)"
    then have k: "k < length ?r" by simp
    then have "?r ! k = int k * b" using nth_range_up[OF assms k] by simp
    moreover have "nat (int k * b) = k * nat b" by (simp add: nat_mult_distrib)
    ultimately show "map (\<lambda>i. take (nat b) (drop (nat i) xs)) ?r ! k
        = map (\<lambda>k. take (nat b) (drop (k * nat b) xs)) [0..<(length xs + nat b - 1) div nat b] ! k"
      using k len by simp
  qed
  then show ?thesis by (simp only: create_batches_pos[OF assms])
qed

lemma chunk_full:
  assumes "0 < (B::nat)" "Suc k < (n + B - 1) div B"
  shows "k * B + B \<le> n"
proof -
  have "Suc (Suc k) \<le> (n + B - 1) div B" using assms by simp
  then have "Suc (Suc k) * B \<le> ((n + B - 1) div B) * B" by (rule mult_le_mono1)
  also have "\<dots> \<le> n + B - 1" by simp
  finally show ?thesis using assms(1) by simp
qed

lemma chunk_last:
  assumes "0 < (B::nat)" "0 < n"
  shows "n - ((n + B - 1) div B - 1) * B = (if n mod B = 0 then B else n mod B)"
proof -
  define q where "q = n div B"
  define r where "r = n mod B"
  have n: "n = q * B + r" and rb: "r < B" using assms by (simp_all add: q_def r_def)
  have m: "n mod B = r" by (simp add: r_def)
  show ?thesis
  proof (cases "r = 0")
    case True
    then have q: "0 < q" using n assms by (cases q) simp_all
    have "B * q \<le> n + B - 1" "n + B - 1 < B * Suc q"
      using n True assms by (simp_all add: mult.commute)
    then have L: "(n + B - 1) div B = q" by (rule div_nat_eqI)
    have "n - (q - 1) * B = B" using n True q by (cases q) simp_all
    with L m True show ?thesis by simp
  next
    case False
    have "B * Suc q \<le> n + B - 1" "n + B - 1 < B * Suc (Suc q)"
      using n False rb by (simp_all add: mult.commute)
    then have L: "(n + B - 1) div B = Suc q" by (rule div_nat_eqI)
    have "n - q * B = r" using n by simp
    with L m False show ?thesis by simp
  qed
qed

subsection \<open>The partition\<close>

text \<open>
  Claim C1. For a positive batch size \<open>b\<close> and any list of \<open>n\<close> units,
  \<open>create_batches\<close> returns normally; it returns \<open>\<lceil>n / b\<rceil>\<close> batches; the
  \<open>k\<close>-th batch is the contiguous window of the input that starts at \<open>k * b\<close>; every
  batch but the last has length \<open>b\<close>; the last has length \<open>n mod b\<close>, or \<open>b\<close> when
  \<open>b\<close> divides \<open>n\<close>; and the batches concatenated in order are the input.
\<close>

theorem create_batches_partition:
  assumes "0 < b"
  shows "\<exists>bs. create_batches xs b = Inr bs
     \<and> int (length bs) = \<lceil>real (length xs) / real_of_int b\<rceil>
     \<and> (\<forall>k < length bs. bs ! k = take (nat b) (drop (k * nat b) xs))
     \<and> (\<forall>k. Suc k < length bs \<longrightarrow> length (bs ! k) = nat b)
     \<and> (bs \<noteq> [] \<longrightarrow> length (last bs) =
            (if length xs mod nat b = 0 then nat b else length xs mod nat b))
     \<and> concat bs = xs"
proof -
  define B where "B = nat b"
  define L where "L = (length xs + B - 1) div B"
  define bs where "bs = map (\<lambda>k. take B (drop (k * B) xs)) [0..<L]"
  have B: "0 < B" using assms by (simp add: B_def)
  have cb: "create_batches xs b = Inr bs"
    using create_batches_chunks[OF assms, of xs] by (simp only: bs_def L_def B_def)
  have len: "length bs = L" by (simp add: bs_def)
  have nth: "bs ! k = take B (drop (k * B) xs)" if "k < length bs" for k
    using that by (simp add: bs_def)
  have "0 \<le> (int (length xs) + b - 1) div b"
    using assms by (simp add: pos_imp_zdiv_nonneg_iff)
  then have "int (nat ((int (length xs) + b - 1) div b)) = (int (length xs) + b - 1) div b"
    by simp
  then have "int L = (int (length xs) + b - 1) div b"
    using nat_ceil_div[OF assms, of "length xs"] by (simp only: L_def B_def)
  also have "\<dots> = \<lceil>real_of_int (int (length xs)) / real_of_int b\<rceil>"
    using ceil_div[OF assms, of "int (length xs)"] by simp
  finally have ceil: "int (length bs) = \<lceil>real (length xs) / real_of_int b\<rceil>"
    using len by simp
  have full: "length (bs ! k) = B" if "Suc k < length bs" for k
  proof -
    from that have "k * B + B \<le> length xs"
      using chunk_full[OF B, of k "length xs"] len by (simp add: L_def)
    then show ?thesis using nth[of k] that by simp
  qed
  have lst: "length (last bs) = (if length xs mod B = 0 then B else length xs mod B)"
    if "bs \<noteq> []"
  proof -
    from that have L0: "0 < L" using len by (cases bs) auto
    then have n0: "0 < length xs" using B by (cases "length xs") (auto simp: L_def)
    have "last bs = bs ! (L - 1)" using that len by (simp add: last_conv_nth)
    also have "\<dots> = take B (drop ((L - 1) * B) xs)" using nth[of "L - 1"] L0 len by simp
    finally have "length (last bs) = min B (length xs - (L - 1) * B)" by simp
    also have "length xs - (L - 1) * B = (if length xs mod B = 0 then B else length xs mod B)"
      using chunk_last[OF B n0] by (simp only: L_def)
    finally have "length (last bs) =
        min B (if length xs mod B = 0 then B else length xs mod B)" .
    moreover have "length xs mod B < B" using B by simp
    ultimately show ?thesis by (simp add: min_def)
  qed
  have "concat bs = xs"
    using create_batches_pos[OF assms, of xs] cb concat_windows[OF assms, of 0 xs]
    by simp
  with cb ceil nth full lst show ?thesis
    unfolding B_def by blast
qed

theorem create_batches_partition_witness:
  "(0::int) < 2 \<and> (\<exists>bs. create_batches [1, 2, 3, 4, 5 :: nat] 2 = Inr bs
      \<and> length bs = 3 \<and> length (last bs) = 1 \<and> concat bs = [1, 2, 3, 4, 5])"
proof -
  have pos: "(0::int) < 2" by simp
  from create_batches_partition[OF pos, of "[1, 2, 3, 4, 5 :: nat]"]
  obtain bs where bs: "create_batches [1, 2, 3, 4, 5 :: nat] 2 = Inr bs"
    and len: "int (length bs) = \<lceil>real (length [1, 2, 3, 4, 5 :: nat]) / real_of_int 2\<rceil>"
    and lst: "bs \<noteq> [] \<longrightarrow> length (last bs) =
        (if length [1, 2, 3, 4, 5 :: nat] mod nat 2 = 0 then nat 2
         else length [1, 2, 3, 4, 5 :: nat] mod nat 2)"
    and cc: "concat bs = [1, 2, 3, 4, 5]"
    by blast
  have "\<lceil>real (length [1, 2, 3, 4, 5 :: nat]) / real_of_int 2\<rceil> = 3"
    by (simp add: ceiling_eq_iff)
  with len have l3: "length bs = 3" by simp
  then have "bs \<noteq> []" by auto
  with lst have "length (last bs) = 1" by simp
  with pos bs l3 cc show ?thesis by blast
qed

lemma range_down_from_zero: "0 \<le> n \<Longrightarrow> range_down 0 n b = []"
  by (subst range_down.simps) simp

subsection \<open>Non-positive batch sizes\<close>

text \<open>
  Claim C2, as amended. The splitter has no check of its own. With batch size \<open>0\<close> the
  call raises the \<open>ValueError\<close> of \<open>range\<close>, for any list. With a negative batch
  size the range is empty, the loop body never runs, and the call returns the empty list of
  batches without raising.
\<close>

theorem create_batches_nonpositive:
  assumes "b \<le> 0"
  shows "create_batches xs b =
     (if b = 0 then Inl (ValueError ''range() arg 3 must not be zero'') else Inr [])"
  using assms by (simp add: create_batches_def py_range_def range_down_from_zero)

theorem create_batches_nonpositive_witness:
  "(0::int) \<le> 0 \<and> (- 1 :: int) \<le> 0
   \<and> create_batches [1, 2, 3 :: nat] 0 = Inl (ValueError ''range() arg 3 must not be zero'')
   \<and> create_batches [1, 2, 3 :: nat] (- 1) = Inr []"
  using create_batches_nonpositive[of 0 "[1, 2, 3 :: nat]"]
        create_batches_nonpositive[of "- 1" "[1, 2, 3 :: nat]"]
  by simp

text \<open>
  The claim as the specification words it (every non-positive batch size raises on a
  non-empty list) fails at batch size \<open>-1\<close>.
\<close>

theorem create_batches_negative_counterexample:
  "create_batches [1, 2, 3 :: nat] (- 1) = Inr []
   \<and> \<not> (\<forall>(xs :: nat list) b. xs \<noteq> [] \<and> b \<le> 0 \<longrightarrow> (\<exists>e. create_batches xs b = Inl e))"
proof -
  have e: "create_batches [1, 2, 3 :: nat] (- 1) = Inr []"
    by (simp add: create_batches_def py_range_def range_down_from_zero)
  have "\<not> (\<forall>(xs :: nat list) b. xs \<noteq> [] \<and> b \<le> 0 \<longrightarrow> (\<exists>e. create_batches xs b = Inl e))"
  proof
    assume "\<forall>(xs :: nat list) b. xs \<noteq> [] \<and> b \<le> 0 \<longrightarrow> (\<exists>e. create_batches xs b = Inl e)"
    then have "\<exists>e. create_batches [1, 2, 3 :: nat] (- 1) = Inl e" by simp
    with e show False by simp
  qed
  with e show ?thesis by simp
qed

section \<open>Properties of the metrics reader\<close>

subsection \<open>Formatting a list of fragments\<close>

lemma clean_parts_strings:
  "clean_parts (map JStr parts) = Inr (map strip (filter (\<lambda>p. strip p \<noteq> []) parts))"
  by (induction parts) simp_all

lemma strip_empty_iff: "strip p = [] \<longleftrightarrow> list_all py_isspace p"
proof
  assume "strip p = []"
  then have d: "dropWhile py_isspace (rev (dropWhile py_isspace p)) = []"
    by (simp add: strip_def)
  have "dropWhile py_isspace p = []"
  proof (rule ccontr)
    assume ne: "dropWhile py_isspace p \<noteq> []"
    then have "\<not> py_isspace (hd (dropWhile py_isspace p))" by (rule hd_dropWhile)
    moreover have "hd (dropWhile py_isspace p) \<in> set (rev (dropWhile py_isspace p))"
      using ne by simp
    moreover from d have "\<forall>c \<in> set (rev (dropWhile py_isspace p)). py_isspace c"
      by (simp only: dropWhile_eq_Nil_conv)
    ultimately show False by blast
  qed
  then have "\<forall>c \<in> set p. py_isspace c" by (simp only: dropWhile_eq_Nil_conv)
  then show "list_all py_isspace p" by (simp only: list_all_iff)
next
  assume "list_all py_isspace p"
  then have "\<forall>c \<in> set p. py_isspace c" by (simp only: list_all_iff)
  then have dw: "dropWhile py_isspace p = []" by (simp only: dropWhile_eq_Nil_conv)
  show "strip p = []" by (simp only: strip_def dw rev.simps dropWhile.simps)
qed

lemma py_join_space:
  "py_join '' '' ts =
     (if ts = [] then [] else concat (map (\<lambda>t. t @ '' '') (butlast ts)) @ last ts)"
  by (induction "'' ''" ts rule: py_join.induct) simp_all

lemma py_isspace_chars:
  "py_isspace c \<longleftrightarrow>
     c \<in> set [CHR 0x09, CHR 0x0A, CHR 0x0B, CHR 0x0C, CHR 0x0D, CHR 0x1C, CHR 0x1D, CHR 0x1E,
              CHR 0x1F, CHR '' '', CHR 0x85, CHR 0xA0]"
proof -
  let ?L = "[CHR 0x09, CHR 0x0A, CHR 0x0B, CHR 0x0C, CHR 0x0D, CHR 0x1C, CHR 0x1D, CHR 0x1E,
              CHR 0x1F, CHR '' '', CHR 0x85, CHR 0xA0]"
  define n where "n = (of_char c :: nat)"
  have a: "c \<in> set ?L \<longleftrightarrow> (of_char c :: nat) \<in> of_char ` set ?L"
    by (rule inj_image_mem_iff[OF inj_of_char, symmetric])
  have b: "(of_char ` set ?L :: nat set) = {9, 10, 11, 12, 13, 28, 29, 30, 31, 32, 133, 160}"
    by simp
  have d: "n \<in> {9, 10, 11, 12, 13, 28, 29, 30, 31, 32, 133, 160}
       \<longleftrightarrow> (9 \<le> n \<and> n \<le> 13) \<or> (28 \<le> n \<and> n \<le> 32) \<or> n = 133 \<or> n = 160"
    by auto
  show ?thesis unfolding a b using d by (simp add: py_isspace_def n_def Let_def)
qed

text \<open>
  Claim C9. For an expression given as a list of string fragments the result is spelled out
  with the list functions of the library alone: the fragments that consist of white space
  only (the ones that are empty after trimming) are dropped; every other fragment loses its
  leading and its trailing white space; every fragment but the last is followed by exactly one
  blank, and the last by nothing. The specification's example,
  \<open>["SUM(Revenue)", "", "  / SUM(Quantity) "]\<close>, formats to
  \<open>"SUM(Revenue) / SUM(Quantity)"\<close>, and six fragments with tabs and line ends among
  them, one of them white space only, format to \<open>"a b c d e f"\<close>. White space is the
  twelve characters tab, line feed, vertical tab, form feed, carriage return, U+001C to
  U+001F, blank, U+0085 and U+00A0.
\<close>

theorem format_expression_fragments:
  "format_expression str_builtin (JList (map JStr parts)) =
     Inr (if filter (\<lambda>p. \<not> list_all py_isspace p) parts = [] then []
          else concat (map (\<lambda>p. rev (dropWhile py_isspace (rev (dropWhile py_isspace p))) @ '' '')
                           (butlast (filter (\<lambda>p. \<not> list_all py_isspace p) parts)))
               @ rev (dropWhile py_isspace (rev (dropWhile py_isspace
                   (last (filter (\<lambda>p. \<not> list_all py_isspace p) parts))))))
   \<and> format_expression str_builtin
        (JList [JStr ''SUM(Revenue)'', JStr '''', JStr ''  / SUM(Quantity) ''])
     = Inr ''SUM(Revenue) / SUM(Quantity)''
   \<and> format_expression str_builtin
        (JList [JStr ''a'', JStr ([CHR 0x09] @ ''b c'' @ [LF]), JStr [LF, CHR 0x09], JStr ''d  '',
                JStr '' e'', JStr ''f''])
     = Inr ''a b c d e f''
   \<and> (\<forall>c. py_isspace c \<longleftrightarrow>
          c \<in> set [CHR 0x09, CHR 0x0A, CHR 0x0B, CHR 0x0C, CHR 0x0D, CHR 0x1C, CHR 0x1D,
                   CHR 0x1E, CHR 0x1F, CHR '' '', CHR 0x85, CHR 0xA0])"
proof (intro conjI)
  let ?keep = "filter (\<lambda>p. \<not> list_all py_isspace p) parts"
  have f: "filter (\<lambda>p. strip p \<noteq> []) parts = ?keep"
    by (simp add: strip_empty_iff)
  have "format_expression str_builtin (JList (map JStr parts)) = Inr (py_join '' '' (map strip ?keep))"
    using clean_parts_strings[of parts] by (simp add: f)
  also have "py_join '' '' (map strip ?keep) =
      (if ?keep = [] then []
       else concat (map (\<lambda>p. strip p @ '' '') (butlast ?keep)) @ strip (last ?keep))"
    by (simp add: py_join_space map_butlast last_map comp_def)
  finally show "format_expression str_builtin (JList (map JStr parts)) =
     Inr (if ?keep = [] then []
          else concat (map (\<lambda>p. rev (dropWhile py_isspace (rev (dropWhile py_isspace p))) @ '' '')
                           (butlast ?keep))
               @ rev (dropWhile py_isspace (rev (dropWhile py_isspace (last ?keep)))))"
    by (simp add: strip_def)
  show "format_expression str_builtin
        (JList [JStr ''SUM(Revenue)'', JStr '''', JStr ''  / SUM(Quantity) ''])
     = Inr ''SUM(Revenue) / SUM(Quantity)''"
    by (simp add: strip_def py_isspace_def)
  show "format_expression str_builtin
        (JList [JStr ''a'', JStr ([CHR 0x09] @ ''b c'' @ [LF]), JStr [LF, CHR 0x09], JStr ''d  '',
                JStr '' e'', JStr ''f''])
     = Inr ''a b c d e f''"
    by (simp add: strip_def py_isspace_def)  show "\<forall>c. py_isspace c \<longleftrightarrow>
          c \<in> set [CHR 0x09, CHR 0x0A, CHR 0x0B, CHR 0x0C, CHR 0x0D, CHR 0x1C, CHR 0x1D,
                   CHR 0x1E, CHR 0x1F, CHR '' '', CHR 0x85, CHR 0xA0]"
    by (intro allI py_isspace_chars)
qed

text \<open>What trimming means: only white space goes, and only from the two ends.\<close>

lemma strip_decompose:
  "\<exists>l r. s = l @ strip s @ r \<and> list_all py_isspace l \<and> list_all py_isspace r"
proof -
  let ?a = "takeWhile py_isspace s" and ?m = "dropWhile py_isspace s"
  let ?b = "takeWhile py_isspace (rev ?m)"
  have "rev ?m = ?b @ dropWhile py_isspace (rev ?m)" by simp
  then have "?m = rev (dropWhile py_isspace (rev ?m)) @ rev ?b"
    by (metis rev_append rev_rev_ident)
  then have "s = ?a @ strip s @ rev ?b"
    by (metis strip_def takeWhile_dropWhile_id)
  moreover have "list_all py_isspace ?a"
    by (simp add: list_all_iff) (meson set_takeWhileD)
  moreover have "list_all py_isspace (rev ?b)"
    by (simp add: list_all_iff) (meson set_takeWhileD)
  ultimately show ?thesis by blast
qed

lemma strip_ends:
  assumes "strip s \<noteq> []"
  shows "\<not> py_isspace (hd (strip s)) \<and> \<not> py_isspace (last (strip s))"
proof -
  let ?m = "dropWhile py_isspace s"
  let ?d = "dropWhile py_isspace (rev ?m)"
  from assms have d: "?d \<noteq> []" by (simp add: strip_def)
  then have h: "\<not> py_isspace (hd ?d)" by (rule hd_dropWhile)
  have "last (strip s) = hd ?d" using d by (simp add: strip_def last_rev)
  with h have l: "\<not> py_isspace (last (strip s))" by simp
  have m: "?m \<noteq> []"
  proof
    assume "?m = []"
    then have "?d = []" by (simp only: rev.simps dropWhile.simps)
    with d show False by simp
  qed
  then have hm: "\<not> py_isspace (hd ?m)" by (rule hd_dropWhile)
  have "\<exists>t. ?m = strip s @ t"
    by (metis strip_def rev_append rev_rev_ident takeWhile_dropWhile_id)
  then obtain t where "?m = strip s @ t" ..
  with assms have "hd ?m = hd (strip s)" by (metis hd_append2)
  with hm l show ?thesis by simp
qed

subsection \<open>Which measures the reader keeps\<close>

lemma clean_parts_ok: "list_all is_string parts \<Longrightarrow> \<exists>c. clean_parts parts = Inr c"
proof (induction parts)
  case Nil
  then show ?case by simp
next
  case (Cons p ps)
  then obtain c where "clean_parts ps = Inr c" by auto
  with Cons.prems show ?case by (cases p) simp_all
qed

lemma format_expression_total:
  "expression_ok e \<Longrightarrow> \<exists>s. format_expression str_builtin e = Inr s"
  using clean_parts_ok by (cases e) (fastforce)+

lemma read_measure_kept:
  assumes "expression_ok (measure_expression kvs)"
  shows "read_measure str_builtin acc (JDict kvs) =
     Inr (if kept str_builtin kvs
          then acc @ [\<lparr>m_name = measure_name kvs, m_expression = formatted_of str_builtin kvs\<rparr>]
          else acc)"
proof -
  from format_expression_total[OF assms]
  obtain s where s: "format_expression str_builtin (measure_expression kvs) = Inr s" ..
  then have f: "formatted_of str_builtin kvs = s" by (simp add: formatted_of_def)
  have e: "(case map_of kvs ''expression'' of None \<Rightarrow> JStr [] | Some v \<Rightarrow> v) = measure_expression kvs"
    by (simp add: measure_expression_def)
  have n: "(case map_of kvs ''name'' of None \<Rightarrow> JStr [] | Some v \<Rightarrow> v) = measure_name kvs"
    by (simp add: measure_name_def)
  show ?thesis
    unfolding read_measure_def py_get.simps sum.case e n s kept_def f by simp
qed

lemma read_measures_kept:
  assumes "\<forall>kvs \<in> set ms. expression_ok (measure_expression kvs)"
  shows "read_measures str_builtin acc (map JDict ms) =
     Inr (acc @ map (\<lambda>kvs. \<lparr>m_name = measure_name kvs, m_expression = formatted_of str_builtin kvs\<rparr>)
                    (filter (kept str_builtin) ms))"
  using assms
proof (induction ms arbitrary: acc)
  case Nil
  then show ?case by simp
next
  case (Cons kvs ms)
  then have ok: "expression_ok (measure_expression kvs)" by simp
  from Cons show ?case by (simp add: read_measure_kept[OF ok])
qed

text \<open>
  Claim C10, as amended. When the file loads to an object whose \<open>measures\<close> are objects,
  each with an expression that is absent, a string, a list of strings, or no list at all,
  the reader returns normally, and its result holds exactly the measures with a true name
  and a non-empty formatted expression, in input order. A measure whose name is the empty
  string, whose formatted expression is empty, or that has no expression at all is left out
  without any error, so the result can be shorter than the list of measures.
\<close>

theorem reader_omits_incomplete_measures:
  assumes "load file_path = Loaded (JDict d)"
    and "map_of d ''measures'' = Some (JList (map JDict ms))"
    and "\<forall>kvs \<in> set ms. expression_ok (measure_expression kvs)"
  shows "read_metrics_to_simple_json str_builtin load file_path =
           Inr (map (\<lambda>kvs. \<lparr>m_name = measure_name kvs, m_expression = formatted_of str_builtin kvs\<rparr>)
                    (filter (kept str_builtin) ms))
     \<and> (\<forall>kvs \<in> set ms.
           measure_name kvs = JStr [] \<or> formatted_of str_builtin kvs = []
           \<or> map_of kvs ''expression'' = None \<longrightarrow> \<not> kept str_builtin kvs)
     \<and> length (filter (kept str_builtin) ms) \<le> length ms"
proof -
  have absent: "formatted_of str_builtin kvs = []" if "map_of kvs ''expression'' = None" for kvs
    using that by (simp add: formatted_of_def measure_expression_def strip_def)
  have "read_metrics_to_simple_json str_builtin load file_path =
           Inr (map (\<lambda>kvs. \<lparr>m_name = measure_name kvs, m_expression = formatted_of str_builtin kvs\<rparr>)
                    (filter (kept str_builtin) ms))"
    using assms(1,2) read_measures_kept[OF assms(3), of str_builtin "[]"]
    by (simp add: read_metrics_to_simple_json_def simplify_loaded_def)
  moreover have "\<forall>kvs \<in> set ms.
           measure_name kvs = JStr [] \<or> formatted_of str_builtin kvs = []
           \<or> map_of kvs ''expression'' = None \<longrightarrow> \<not> kept str_builtin kvs"
    using absent by (auto simp: kept_def)
  ultimately show ?thesis by simp
qed

theorem reader_omits_incomplete_measures_witness:
  "read_metrics_to_simple_json (\<lambda>v. ''?'')
     (\<lambda>p. Loaded (JDict [(''measures'', JList
        [JDict [(''name'', JStr ''Total''), (''expression'', JList [JStr '' SUM(x)'', JStr '' '', JStr ''/ 2''])],
         JDict [(''name'', JStr ''''), (''expression'', JStr ''1'')],
         JDict [(''name'', JStr ''NoExpr'')],
         JDict [(''name'', JStr ''Blank''), (''expression'', JStr ''   '')]])]))
     ''aas_metrics/metrics.json''
   = Inr [\<lparr>m_name = JStr ''Total'', m_expression = ''SUM(x) / 2''\<rparr>]"
proof -
  let ?ms = "[[(''name'', JStr ''Total''), (''expression'', JList [JStr '' SUM(x)'', JStr '' '', JStr ''/ 2''])],
              [(''name'', JStr ''''), (''expression'', JStr ''1'')],
              [(''name'', JStr ''NoExpr'')],
              [(''name'', JStr ''Blank''), (''expression'', JStr ''   '')]]"
  let ?d = "[(''measures'', JList (map JDict ?ms))]"
  let ?load = "\<lambda>p :: string. Loaded (JDict ?d)"
  have h1: "?load ''aas_metrics/metrics.json'' = Loaded (JDict ?d)" by simp
  have h2: "map_of ?d ''measures'' = Some (JList (map JDict ?ms))" by simp
  have h3: "\<forall>kvs \<in> set ?ms. expression_ok (measure_expression kvs)"
    by (simp add: measure_expression_def)
  from reader_omits_incomplete_measures[of ?load "''aas_metrics/metrics.json''" ?d ?ms "\<lambda>v. ''?''", OF h1 h2 h3]
  show ?thesis
    by (simp add: kept_def measure_name_def formatted_of_def measure_expression_def
                  strip_def py_isspace_def)
qed

text \<open>
  The claim as the specification words it (every measure with an empty name is left out and
  no error is raised) fails for a measure whose expression is a list with an element that is
  not a string: \<open>{"name": "", "expression": ["x", 2]}\<close> is not skipped, the whole read
  raises \<open>Exception\<close>.
\<close>

theorem reader_raises_on_mixed_list_counterexample:
  "read_metrics_to_simple_json (\<lambda>v. ''?'')
     (\<lambda>p. Loaded (JDict [(''measures'', JList
        [JDict [(''name'', JStr ''''), (''expression'', JList [JStr ''x'', JInt 2])]])]))
     ''aas_metrics/metrics.json''
   = Inl (Exception (''Error reading metrics file: '' @ [CHR 0x27] @ ''int'' @ [CHR 0x27]
                     @ '' object has no attribute '' @ [CHR 0x27] @ ''strip'' @ [CHR 0x27]))"
  by (simp add: read_metrics_to_simple_json_def simplify_loaded_def read_measure_def
                no_attribute_def strip_def py_isspace_def)

section \<open>Properties of the orchestrator\<close>

subsection \<open>The pool and the collected entries\<close>

lemma run_workers_run:
  assumes "1 \<le> j" "j \<le> length bs" "futures j = None"
  shows "run_workers dumps convert bs (j # order) futures w =
     run_workers dumps convert bs order
       (futures(j \<mapsto> fst (process_metrics_batch dumps convert (batch_label j) (bs ! (j - 1)) j w)))
       (snd (process_metrics_batch dumps convert (batch_label j) (bs ! (j - 1)) j w))"
  using assms by (simp add: split_beta)

lemma run_workers_skip:
  assumes "\<not> (1 \<le> j \<and> j \<le> length bs \<and> futures j = None)"
  shows "run_workers dumps convert bs (j # order) futures w =
     run_workers dumps convert bs order futures w"
  using assms by auto

lemma run_workers_dom:
  "fst (run_workers dumps convert bs order futures w) i \<noteq> None
     \<longleftrightarrow> futures i \<noteq> None \<or> (i \<in> set order \<and> 1 \<le> i \<and> i \<le> length bs)"
proof (induction order arbitrary: futures w)
  case Nil
  then show ?case by simp
next
  case (Cons j order)
  show ?case
  proof (cases "1 \<le> j \<and> j \<le> length bs \<and> futures j = None")
    case True
    then have "run_workers dumps convert bs (j # order) futures w =
     run_workers dumps convert bs order
       (futures(j \<mapsto> fst (process_metrics_batch dumps convert (batch_label j) (bs ! (j - 1)) j w)))
       (snd (process_metrics_batch dumps convert (batch_label j) (bs ! (j - 1)) j w))"
      by (intro run_workers_run) simp_all
    then show ?thesis using Cons.IH True by (auto simp del: run_workers.simps)
  next
    case False
    then show ?thesis
      using Cons.IH[of futures w] by (auto simp only: run_workers_skip[where futures=futures and j=j and bs=bs, OF False] set_simps)
  qed
qed

lemma run_workers_keeps:
  "futures j \<noteq> None \<Longrightarrow> fst (run_workers dumps convert bs order futures w) j = futures j"
proof (induction order arbitrary: futures w)
  case Nil
  then show ?case by simp
next
  case (Cons k order)
  show ?case
  proof (cases "1 \<le> k \<and> k \<le> length bs \<and> futures k = None")
    case True
    then have kj: "k \<noteq> j" using Cons.prems by auto
    let ?P = "process_metrics_batch dumps convert (batch_label k) (bs ! (k - 1)) k w"
    have "run_workers dumps convert bs (k # order) futures w =
          run_workers dumps convert bs order (futures(k \<mapsto> fst ?P)) (snd ?P)"
      using True by (intro run_workers_run) simp_all
    moreover have "(futures(k \<mapsto> fst ?P)) j \<noteq> None" using Cons.prems kj by simp
    then have "fst (run_workers dumps convert bs order (futures(k \<mapsto> fst ?P)) (snd ?P)) j
             = (futures(k \<mapsto> fst ?P)) j" by (rule Cons.IH)
    ultimately show ?thesis using kj by (simp del: run_workers.simps)
  next
    case False
    show ?thesis using Cons.IH[where futures=futures and w=w, OF Cons.prems] by (simp only: run_workers_skip[where futures=futures and j=k and bs=bs, OF False])
  qed
qed

lemma run_workers_outcome:
  "fst (run_workers dumps convert bs order futures w) i = Some outcome \<Longrightarrow> futures i = None \<Longrightarrow>
   \<exists>wi. outcome = fst (process_metrics_batch dumps convert (batch_label i) (bs ! (i - 1)) i wi)"
proof (induction order arbitrary: futures w)
  case Nil
  then show ?case by simp
next
  case (Cons j order)
  show ?case
  proof (cases "1 \<le> j \<and> j \<le> length bs \<and> futures j = None")
    case True
    let ?P = "process_metrics_batch dumps convert (batch_label j) (bs ! (j - 1)) j w"
    have eq: "run_workers dumps convert bs (j # order) futures w =
          run_workers dumps convert bs order (futures(j \<mapsto> fst ?P)) (snd ?P)"
      using True by (intro run_workers_run) simp_all
    with Cons.prems(1)
    have step: "fst (run_workers dumps convert bs order (futures(j \<mapsto> fst ?P)) (snd ?P)) i = Some outcome"
      by (simp only:)
    show ?thesis
    proof (cases "i = j")
      case same: True
      have "fst (run_workers dumps convert bs order (futures(j \<mapsto> fst ?P)) (snd ?P)) j
          = (futures(j \<mapsto> fst ?P)) j"
        by (rule run_workers_keeps) simp
      with step same have "outcome = fst ?P" by simp
      with same show ?thesis by blast
    next
      case False
      then have "(futures(j \<mapsto> fst ?P)) i = None" using Cons.prems(2) by simp
      with Cons.IH[OF step] show ?thesis .
    qed
  next
    case False
    from Cons.prems(1) have "fst (run_workers dumps convert bs order futures w) i = Some outcome"
      by (simp only: run_workers_skip[where futures=futures and j=j and bs=bs, OF False])
    with Cons.prems(2) Cons.IH show ?thesis by blast
  qed
qed

lemma collect_results_map:
  "\<forall>i \<in> set order. futures i \<noteq> None \<Longrightarrow>
   collect_results futures order acc = acc @ map (\<lambda>i. result_entry i (the (futures i))) order"
  by (induction order arbitrary: acc) auto

lemma result_entry_num: "r_batch_num (result_entry i x) = i"
proof (cases x)
  case (Inl e)
  then show ?thesis by simp
next
  case (Inr p)
  then show ?thesis by (cases p) auto
qed

lemma process_batches_parallel_sorted:
  assumes "bs \<noteq> []" and "0 < max_workers"
    and "mset save_order = mset [1..<Suc (length bs)]"
    and "mset completion_order = mset [1..<Suc (length bs)]"
  shows "process_batches_parallel dumps convert bs max_workers save_order completion_order w =
     (Inr (map (\<lambda>i. result_entry i (the (fst (run_workers dumps convert bs save_order (\<lambda>i. None) w) i)))
               [1..<Suc (length bs)]),
      snd (run_workers dumps convert bs save_order (\<lambda>i. None) w))"
proof -
  let ?run = "run_workers dumps convert bs save_order (\<lambda>i. None) w"
  let ?g = "\<lambda>i. result_entry i (the (fst ?run i))"
  have so: "set save_order = {1..<Suc (length bs)}"
    using assms(3) by (metis mset_eq_setD set_upt)
  have co: "set completion_order = {1..<Suc (length bs)}"
    using assms(4) by (metis mset_eq_setD set_upt)
  have "\<forall>i \<in> set completion_order. fst ?run i \<noteq> None"
    using run_workers_dom[of dumps convert bs save_order "\<lambda>i. None" w] so co by auto
  then have col: "collect_results (fst ?run) completion_order [] = map ?g completion_order"
    using collect_results_map[of completion_order "fst ?run" "[]"] by simp
  have "sort_key r_batch_num (map ?g completion_order) = map ?g [1..<Suc (length bs)]"
  proof (rule sort_key_inj_key_eq)
    show "mset (map ?g completion_order) = mset (map ?g [1..<Suc (length bs)])"
      using assms(4) by (metis mset_map)
    show "inj_on r_batch_num (set (map ?g completion_order))"
      by (auto simp: inj_on_def result_entry_num)
    have "map r_batch_num (map ?g [1..<Suc (length bs)]) = [1..<Suc (length bs)]"
      by (simp add: map_idI result_entry_num del: upt_Suc)
    then show "sorted (map r_batch_num (map ?g [1..<Suc (length bs)]))"
      by (simp only: sorted_upt)
  qed
  with col assms(1,2) show ?thesis
    by (simp add: process_batches_parallel_def split_beta del: upt_Suc)
qed

lemma run_workers_no_batches:
  "run_workers dumps convert [] order futures w = (futures, w)"
  by (induction order arbitrary: futures w) auto

text \<open>
  Claim C3, at the input where the code departs from it. With an empty list of batches the
  orchestrator returns no list at all: the pool has nothing to run, and the division by
  the number of batches in the closing report raises \<open>ZeroDivisionError\<close>.
\<close>

theorem process_batches_parallel_no_batches:
  "process_batches_parallel dumps convert [] 4 save_order completion_order w =
     (Inl (ZeroDivisionError ''float division by zero''), w)"
  by (simp add: process_batches_parallel_def run_workers_no_batches)

lemma process_metrics_batch_count:
  "fst (process_metrics_batch dumps convert nm b tid w) = Inr (results, saved, c) \<Longrightarrow> c = length b"
  by (auto simp: process_metrics_batch_def Let_def split: sum.splits prod.splits)

lemma outcome_entries:
  assumes "bs \<noteq> []" and "0 < max_workers"
    and "mset save_order = mset [1..<Suc (length bs)]"
    and "mset completion_order = mset [1..<Suc (length bs)]"
  shows "\<exists>outs w'.
      process_batches_parallel dumps convert bs max_workers save_order completion_order w = (Inr outs, w')
    \<and> length outs = length bs
    \<and> (\<forall>k < length bs. \<exists>wk. outs ! k =
          result_entry (Suc k)
            (fst (process_metrics_batch dumps convert (batch_label (Suc k)) (bs ! k) (Suc k) wk)))"
proof -
  let ?run = "run_workers dumps convert bs save_order (\<lambda>i. None) w"
  let ?g = "\<lambda>i. result_entry i (the (fst ?run i))"
  let ?outs = "map ?g [1..<Suc (length bs)]"
  have so: "set save_order = {1..<Suc (length bs)}"
    using assms(3) by (metis mset_eq_setD set_upt)
  have e: "process_batches_parallel dumps convert bs max_workers save_order completion_order w
         = (Inr ?outs, snd ?run)"
    by (rule process_batches_parallel_sorted[OF assms])
  have len: "length ?outs = length bs" by (simp del: upt_Suc)
  have "\<exists>wk. ?outs ! k = result_entry (Suc k)
            (fst (process_metrics_batch dumps convert (batch_label (Suc k)) (bs ! k) (Suc k) wk))"
    if k: "k < length bs" for k
  proof -
    have nth: "?outs ! k = ?g (Suc k)"
      using k by (simp add: nth_map_upt del: upt_Suc)
    have "fst ?run (Suc k) \<noteq> None"
      using run_workers_dom[of dumps convert bs save_order "\<lambda>i. None" w "Suc k"] so k by auto
    then obtain outcome where o: "fst ?run (Suc k) = Some outcome" by auto
    from run_workers_outcome[OF o]
    obtain wk where "outcome =
        fst (process_metrics_batch dumps convert (batch_label (Suc k)) (bs ! k) (Suc k) wk)"
      by auto
    with nth o show ?thesis by auto
  qed
  with e len show ?thesis by blast
qed

text \<open>
  With at least one batch and a positive pool size the orchestrator returns normally,
  whatever the order in which the workers save and the order in which the futures complete:
  one entry per batch, the entries in the order of the batch numbers \<open>1, \<dots>, n\<close>, and
  the same list and final state for every completion order.
\<close>

theorem orchestrator_outcomes_in_batch_order:
  assumes "bs \<noteq> []" and "0 < max_workers"
    and "mset save_order = mset [1..<Suc (length bs)]"
    and "mset completion_order = mset [1..<Suc (length bs)]"
  shows "\<exists>outs w'.
      process_batches_parallel dumps convert bs max_workers save_order completion_order w = (Inr outs, w')
    \<and> length outs = length bs
    \<and> map r_batch_num outs = [1..<Suc (length bs)]
    \<and> sorted (map r_batch_num outs)
    \<and> (\<forall>other_order. mset other_order = mset [1..<Suc (length bs)] \<longrightarrow>
          process_batches_parallel dumps convert bs max_workers save_order other_order w = (Inr outs, w'))"
proof -
  let ?run = "run_workers dumps convert bs save_order (\<lambda>i. None) w"
  let ?g = "\<lambda>i. result_entry i (the (fst ?run i))"
  let ?outs = "map ?g [1..<Suc (length bs)]"
  have e: "process_batches_parallel dumps convert bs max_workers save_order co w = (Inr ?outs, snd ?run)"
    if "mset co = mset [1..<Suc (length bs)]" for co
    using that by (intro process_batches_parallel_sorted assms(1,2,3))
  have nums: "map r_batch_num ?outs = [1..<Suc (length bs)]"
    by (simp add: map_idI result_entry_num del: upt_Suc)
  then have srt: "sorted (map r_batch_num ?outs)" by (simp only: sorted_upt)
  have len: "length ?outs = length bs" by (simp del: upt_Suc)
  from e[OF assms(4)] e len nums srt show ?thesis by blast
qed

theorem orchestrator_outcomes_in_batch_order_witness:
  "\<exists>outs w'.
      process_batches_parallel concat (\<lambda>p. if p = ''b'' then Inl (Exception ''timeout'') else Inr p)
        [[''a''], [''b''], [''c'']] 2 [2, 1, 3] [3, 1, 2]
        \<lparr>files = [], open_error = (\<lambda>p. None),
         clock = (\<lambda>n. \<lparr>year = 2025, month = 11, day = 4, hour = 10, minute = 0, second = n,
                        microsecond = 0\<rparr>),
         ticks = 0\<rparr> = (Inr outs, w')
    \<and> length outs = 3 \<and> map r_batch_num outs = [1, 2, 3]"
proof -
  let ?bs = "[[''a''], [''b''], [''c'']]"
  have h1: "?bs \<noteq> []" by simp
  have h2: "(0::int) < 2" by simp
  have u: "[1..<Suc (length ?bs)] = [1, 2, 3]" by (simp add: upt_rec numeral_eq_Suc)
  have h3: "mset [2, 1, 3] = mset [1..<Suc (length ?bs)]" unfolding u by simp
  have h4: "mset [3, 1, 2] = mset [1..<Suc (length ?bs)]" unfolding u by simp
  let ?convert = "\<lambda>p. if p = ''b'' then Inl (Exception ''timeout'') else Inr p"
  let ?w = "\<lparr>files = [], open_error = (\<lambda>p. None),
         clock = (\<lambda>n. \<lparr>year = 2025, month = 11, day = 4, hour = 10, minute = 0, second = n,
                        microsecond = 0\<rparr>),
         ticks = 0\<rparr>"
  from orchestrator_outcomes_in_batch_order[OF h1 h2 h3 h4, of concat ?convert ?w]
  obtain outs w' where
    "process_batches_parallel concat ?convert ?bs 2 [2, 1, 3] [3, 1, 2] ?w = (Inr outs, w')"
    "length outs = length ?bs" "map r_batch_num outs = [1..<Suc (length ?bs)]"
    by blast
  then show ?thesis unfolding u by auto
qed

subsection \<open>Unit counts\<close>

lemma result_entry_count:
  "r_count (result_entry i (fst (process_metrics_batch dumps convert nm b tid w)))
     = (if r_error (result_entry i (fst (process_metrics_batch dumps convert nm b tid w))) = None
        then length b else 0)"
proof (cases "fst (process_metrics_batch dumps convert nm b tid w)")
  case (Inl e)
  then show ?thesis by simp
next
  case (Inr p)
  obtain results saved c where p: "p = (results, saved, c)" by (cases p) auto
  with Inr process_metrics_batch_count[of dumps convert nm b tid w results saved c]
  show ?thesis by simp
qed

text \<open>
  Claim C4, as amended. In a run over at least one batch, an entry without an error
  records the length of its batch and an entry with an error records \<open>0\<close>. The counts
  therefore add up to the units of the batches that succeeded: at most the number of
  input units, and exactly that number when no batch failed.
\<close>

theorem outcome_counts:
  assumes "bs \<noteq> []" and "0 < max_workers"
    and "mset save_order = mset [1..<Suc (length bs)]"
    and "mset completion_order = mset [1..<Suc (length bs)]"
  shows "\<exists>outs w'.
      process_batches_parallel dumps convert bs max_workers save_order completion_order w = (Inr outs, w')
    \<and> length outs = length bs
    \<and> (\<forall>k < length bs.
          r_count (outs ! k) = (if r_error (outs ! k) = None then length (bs ! k) else 0))
    \<and> sum_list (map r_count outs) \<le> length (concat bs)
    \<and> ((\<forall>k < length bs. r_error (outs ! k) = None) \<longrightarrow>
          sum_list (map r_count outs) = length (concat bs))"
proof -
  from outcome_entries[OF assms, of dumps convert w]
  obtain outs w' where
    e: "process_batches_parallel dumps convert bs max_workers save_order completion_order w = (Inr outs, w')"
    and len: "length outs = length bs"
    and ent: "\<forall>k < length bs. \<exists>wk. outs ! k =
          result_entry (Suc k)
            (fst (process_metrics_batch dumps convert (batch_label (Suc k)) (bs ! k) (Suc k) wk))"
    by blast
  have cnt: "r_count (outs ! k) = (if r_error (outs ! k) = None then length (bs ! k) else 0)"
    if "k < length bs" for k
  proof -
    from ent that obtain wk where "outs ! k =
          result_entry (Suc k)
            (fst (process_metrics_batch dumps convert (batch_label (Suc k)) (bs ! k) (Suc k) wk))"
      by blast
    then show ?thesis by (simp only: result_entry_count)
  qed
  have total: "length (concat bs) = (\<Sum>k<length bs. length (bs ! k))"
    by (simp add: length_concat sum_list_sum_nth atLeast0LessThan)
  have sum: "sum_list (map r_count outs) = (\<Sum>k<length bs. r_count (outs ! k))"
    using len by (simp add: sum_list_sum_nth atLeast0LessThan)
  have le: "sum_list (map r_count outs) \<le> length (concat bs)"
    unfolding total sum by (rule sum_mono) (simp add: cnt)
  have eq: "sum_list (map r_count outs) = length (concat bs)"
    if "\<forall>k < length bs. r_error (outs ! k) = None"
    unfolding total sum using that by (intro sum.cong refl) (simp add: cnt)
  from e len cnt le eq show ?thesis by blast
qed

text \<open>The equations that evaluate a run on concrete inputs.\<close>

lemmas engine_eval =
  process_batches_parallel_def process_metrics_batch_def save_conversion_results_def
  now_def batch_label_def str_nat.simps digit_char_def os_path_join_def startswith_def
  strftime_file_def pad2_def Let_def

theorem outcome_counts_witness:
  "\<exists>outs w'.
      process_batches_parallel concat (\<lambda>p. if p = ''cd'' then Inl (Exception ''timeout'') else Inr p)
        [[''a'', ''b''], [''c'', ''d''], [''e'']] 2 [2, 1, 3] [3, 1, 2]
        \<lparr>files = [], open_error = (\<lambda>p. None),
         clock = (\<lambda>n. \<lparr>year = 2025, month = 11, day = 4, hour = 10, minute = 0, second = n,
                        microsecond = 0\<rparr>),
         ticks = 0\<rparr> = (Inr outs, w')
    \<and> length outs = 3 \<and> sum_list (map r_count outs) \<le> 5"
proof -
  let ?bs = "[[''a'', ''b''], [''c'', ''d''], [''e'']]"
  let ?convert = "\<lambda>p. if p = ''cd'' then Inl (Exception ''timeout'') else Inr p"
  let ?w = "\<lparr>files = [], open_error = (\<lambda>p. None),
         clock = (\<lambda>n. \<lparr>year = 2025, month = 11, day = 4, hour = 10, minute = 0, second = n,
                        microsecond = 0\<rparr>),
         ticks = 0\<rparr>"
  have h1: "?bs \<noteq> []" by simp
  have h2: "(0::int) < 2" by simp
  have u: "[1..<Suc (length ?bs)] = [1, 2, 3]" by (simp add: upt_rec numeral_eq_Suc)
  have h3: "mset [2, 1, 3] = mset [1..<Suc (length ?bs)]" unfolding u by simp
  have h4: "mset [3, 1, 2] = mset [1..<Suc (length ?bs)]" unfolding u by simp
  from outcome_counts[OF h1 h2 h3 h4, of concat ?convert ?w]
  obtain outs w' where
    "process_batches_parallel concat ?convert ?bs 2 [2, 1, 3] [3, 1, 2] ?w = (Inr outs, w')"
    "length outs = length ?bs" "sum_list (map r_count outs) \<le> length (concat ?bs)"
    by blast
  then show ?thesis by auto
qed

text \<open>
  The claim as the specification words it (the counts of successes and failures together
  add up to the number of input units) fails as soon as a batch fails: one batch of two
  units whose translation raises gives a single entry with count \<open>0\<close>.
\<close>

theorem failed_batch_counts_zero_counterexample:
  "fst (process_batches_parallel concat (\<lambda>p. Inl (Exception ''timeout'')) [[''a'', ''b'']] 4 [1] [1]
        \<lparr>files = [], open_error = (\<lambda>p. None),
         clock = (\<lambda>n. \<lparr>year = 2025, month = 11, day = 4, hour = 10, minute = 0, second = n,
                        microsecond = 0\<rparr>),
         ticks = 0\<rparr>)
     = Inr [\<lparr>r_batch = ''Batch 1'', r_batch_num = 1, r_file = None, r_count = 0,
             r_error = Some ''timeout''\<rparr>]
   \<and> sum_list (map r_count
         [\<lparr>r_batch = ''Batch 1'', r_batch_num = 1, r_file = None, r_count = 0,
           r_error = Some ''timeout''\<rparr>]) \<noteq> length (concat [[''a'', ''b'']])"
  by (simp add: engine_eval)

subsection \<open>Failures of a worker\<close>




lemma worker_world_here:
  assumes "1 \<le> n" "n \<le> length bs" "futures n = None"
  shows "worker_world dumps convert bs (n # order) futures w n = w"
  using assms by simp










subsection \<open>Artifact names\<close>

text \<open>
  Claim C6, at an input where the code departs from it. Two batches are saved within the
  same second. Both succeed, both entries name the same artifact, and one file is left:
  the second save has replaced the first.
\<close>

theorem artifact_names_collide:
  "\<exists>outs w'.
      process_batches_parallel concat Inr [[''a''], [''b'']] 2 [1, 2] [1, 2]
        \<lparr>files = [], open_error = (\<lambda>p. None),
         clock = (\<lambda>n. \<lparr>year = 2025, month = 11, day = 4, hour = 10, minute = 0, second = 7,
                        microsecond = 1000 * n\<rparr>),
         ticks = 0\<rparr> = (Inr outs, w')
    \<and> map r_error outs = [None, None]
    \<and> map r_file outs =
        [Some ''uc_converted_metrics/converted_metrics_20251104_100007.txt'',
         Some ''uc_converted_metrics/converted_metrics_20251104_100007.txt'']
    \<and> map fst (files w') = [''uc_converted_metrics/converted_metrics_20251104_100007.txt'']"
  by (simp add: engine_eval)

section \<open>Properties of the combiner\<close>

subsection \<open>No artifact, no combined file\<close>




subsection \<open>What the footer reports\<close>

lemma map_of_store: "map_of (store p c fs) q = (if q = p then Some c else map_of fs q)"
  by (induction fs) auto

lemma os_path_join_prefix:
  "\<not> startswith name ''/'' \<Longrightarrow> os_path_join folder name = os_path_join folder [] @ name"
  by (simp add: os_path_join_def startswith_def)

lemma artifact_is_not_combined:
  assumes "in_folder folder p"
  shows "p \<noteq> os_path_join folder (''combined_all_metrics_'' @ ts @ ''.txt'')"
proof
  let ?pre = "os_path_join folder []"
  assume eq: "p = os_path_join folder (''combined_all_metrics_'' @ ts @ ''.txt'')"
  have "os_path_join folder (''combined_all_metrics_'' @ ts @ ''.txt'')
      = ?pre @ ''combined_all_metrics_'' @ ts @ ''.txt''"
    by (rule os_path_join_prefix) (simp add: startswith_def)
  with eq have "drop (length ?pre) p = ''combined_all_metrics_'' @ ts @ ''.txt''" by simp
  moreover from assms have "startswith (drop (length ?pre) p) ''converted_metrics_''"
    by (simp add: in_folder_def is_batch_artifact_def)
  ultimately show False by (simp add: startswith_def)
qed

lemma glob_artifacts_literal:
  "literal_folder folder \<Longrightarrow>
   glob_artifacts wildcard_glob folder w = filter (in_folder folder) (remdups (map fst (files w)))"
  by (simp add: glob_artifacts_def)

lemma glob_artifacts_stored:
  assumes "literal_folder folder" "p \<in> set (glob_artifacts wildcard_glob folder w)"
  shows "in_folder folder p \<and> (\<exists>c. map_of (files w) p = Some c)"
proof -
  from assms have "in_folder folder p" "p \<in> fst ` set (files w)"
    by (simp_all add: glob_artifacts_literal)
  then show ?thesis by (metis map_of_eq_None_iff not_None_eq)
qed

lemma combine_files_total:
  assumes "\<forall>p \<in> set ps. map_of (files w) p \<noteq> None"
  shows "\<exists>body. combine_files w i ps written tot =
     Inr (written @ body,
          tot + sum_list (map (\<lambda>p. count_name_lines (readlines (the (map_of (files w) p)))) ps))"
  using assms
proof (induction ps arbitrary: i written tot)
  case Nil
  then show ?case by simp
next
  case (Cons p ps)
  then obtain c where c: "map_of (files w) p = Some c" by auto
  from Cons.prems have "\<forall>p \<in> set ps. map_of (files w) p \<noteq> None" by simp
  from Cons.IH[OF this, of "Suc i" "written @ batch_section i p (readlines c)"
                          "tot + count_name_lines (readlines c)"]
  obtain body where "combine_files w (Suc i) ps (written @ batch_section i p (readlines c))
        (tot + count_name_lines (readlines c)) =
     Inr ((written @ batch_section i p (readlines c)) @ body,
          (tot + count_name_lines (readlines c))
          + sum_list (map (\<lambda>p. count_name_lines (readlines (the (map_of (files w) p)))) ps))"
    by blast
  with c show ?case
    by (intro exI[of _ "batch_section i p (readlines c) @ body"]) (simp add: Let_def add.assoc)
qed

lemma combine_files_same_contents:
  assumes "\<forall>p \<in> set ps. map_of (files w) p = map_of (files v) p"
  shows "combine_files w i ps written tot = combine_files v i ps written tot"
  using assms by (induction ps arbitrary: i written tot) (simp_all add: Let_def split: option.splits)

lemma combine_all_results_total:
  assumes "literal_folder folder"
    and "glob_artifacts wildcard_glob folder w \<noteq> []"
    and "open_error w (os_path_join folder
           (''combined_all_metrics_'' @ strftime_file (clock w (ticks w)) @ ''.txt'')) = None"
  shows "\<exists>path w' body.
      combine_all_results wildcard_glob folder w = (Inr (Some path), w')
    \<and> map_of (files w') path =
        Some (body @ combined_footer (clock w (ticks w + 2))
                (sum_list (map (\<lambda>p. count_name_lines (readlines (the (map_of (files w) p))))
                               (sort (glob_artifacts wildcard_glob folder w))))
                (length (glob_artifacts wildcard_glob folder w)))"
proof -
  let ?files = "sort (glob_artifacts wildcard_glob folder w)"
  let ?path = "os_path_join folder
           (''combined_all_metrics_'' @ strftime_file (clock w (ticks w)) @ ''.txt'')"
  let ?w1 = "w\<lparr>ticks := Suc (ticks w)\<rparr>"
  let ?w2 = "?w1\<lparr>files := store ?path [] (files ?w1)\<rparr>"
  let ?w3 = "?w2\<lparr>ticks := Suc (ticks ?w2)\<rparr>"
  let ?header = "combined_header (clock w (Suc (ticks w))) (length ?files)"
  let ?total = "sum_list (map (\<lambda>p. count_name_lines (readlines (the (map_of (files w) p)))) ?files)"
  have ne: "?files \<noteq> []" using assms(2) by (metis length_0_conv length_sort)
  have same: "\<forall>p \<in> set ?files. map_of (files ?w3) p = map_of (files w) p"
  proof
    fix p assume "p \<in> set ?files"
    then have "in_folder folder p" using glob_artifacts_stored[OF assms(1)] by simp
    then have "p \<noteq> ?path" by (rule artifact_is_not_combined)
    then show "map_of (files ?w3) p = map_of (files w) p" by (simp add: map_of_store)
  qed
  have "\<forall>p \<in> set ?files. map_of (files w) p \<noteq> None"
    using glob_artifacts_stored[OF assms(1), of _ wildcard_glob w] by auto
  from combine_files_total[OF this, of 1 ?header 0]
  obtain body where "combine_files w 1 ?files ?header 0 = Inr (?header @ body, 0 + ?total)"
    by blast
  with combine_files_same_contents[OF same, of 1 ?header 0]
  have cf: "combine_files ?w3 1 ?files ?header 0 = Inr (?header @ body, ?total)" by simp
  let ?w4 = "?w3\<lparr>ticks := Suc (ticks ?w3)\<rparr>"
  let ?text = "(?header @ body) @ combined_footer (clock w (ticks w + 2)) ?total (length ?files)"
  let ?wf = "?w4\<lparr>files := store ?path ?text (files ?w4)\<rparr>"
  have r: "combine_all_results wildcard_glob folder w = (Inr (Some ?path), ?wf)"
    using ne assms(3) cf by (simp add: combine_all_results_def now_def Let_def)
  have m: "map_of (files ?wf) ?path =
        Some ((?header @ body) @ combined_footer (clock w (ticks w + 2)) ?total
                (length (glob_artifacts wildcard_glob folder w)))"
    by (simp add: map_of_store)
  from r m show ?thesis by (intro exI[of _ ?path] exI[of _ ?wf] exI[of _ "?header @ body"] conjI)
qed

subsection \<open>The header of an artifact holds no counted line\<close>

lemma set_str_nat: "set (str_nat n) \<subseteq> set ''0123456789''"
proof (induction n rule: str_nat.induct)
  case (1 n)
  have d: "digit_char k \<in> set ''0123456789''" for k
  proof -
    have "k mod 10 < length ''0123456789''" by simp
    then show ?thesis unfolding digit_char_def by (rule nth_mem)
  qed
  show ?case
  proof (cases "n < 10")
    case True
    then show ?thesis using d[of n] by (subst str_nat.simps) simp
  next
    case False
    then show ?thesis using 1 d[of "n mod 10"] by (subst str_nat.simps) simp
  qed
qed

lemma set_pad2: "set (pad2 n) \<subseteq> set ''0123456789''"
  using set_str_nat[of n] by (auto simp: pad2_def)

lemma no_slash_in_digits: "CHR ''/'' \<notin> set (str_nat n)" "CHR ''/'' \<notin> set (pad2 n)"
  using set_str_nat[of n] set_pad2[of n] by auto

lemma no_slash_in_strftime_file: "CHR ''/'' \<notin> set (strftime_file t)"
  by (simp add: strftime_file_def no_slash_in_digits)

lemma plain_digits:
  "CHR ''m'' \<notin> set (str_nat n)" "CR \<notin> set (str_nat n)"
  "CHR ''m'' \<notin> set (pad2 n)" "CR \<notin> set (pad2 n)"
  using set_str_nat[of n] set_pad2[of n] by auto

lemma plain_strftime_header:
  "CHR ''m'' \<notin> set (strftime_header t)" "CR \<notin> set (strftime_header t)"
  by (simp_all add: strftime_header_def plain_digits)

lemma saved_path_in_folder:
  "in_folder ''uc_converted_metrics''
     (os_path_join ''uc_converted_metrics'' (''converted_metrics_'' @ strftime_file t @ ''.txt''))"
proof -
  have "CHR ''/'' \<notin> set (strftime_file t)"
    by (rule no_slash_in_strftime_file)
  then show ?thesis
    by (simp add: in_folder_def os_path_join_def startswith_def is_batch_artifact_def)
qed

lemma universal_newlines_Cons:
  "CR \<noteq> c \<Longrightarrow> universal_newlines (c # xs) = c # universal_newlines xs"
  by (cases xs) auto

lemma universal_newlines_append:
  "CR \<notin> set h \<Longrightarrow> universal_newlines (h @ r) = h @ universal_newlines r"
  by (induction h) (simp_all add: universal_newlines_Cons)

lemma readlines_from_append:
  "h \<noteq> [] \<Longrightarrow> last h = LF \<Longrightarrow>
   readlines_from cur (h @ r) = readlines_from cur h @ readlines_from [] r"
proof (induction h arbitrary: cur)
  case Nil
  then show ?case by simp
next
  case (Cons c h)
  show ?case
  proof (cases "h = []")
    case True
    with Cons.prems show ?thesis by simp
  next
    case False
    with Cons show ?thesis by simp
  qed
qed

lemma readlines_from_chars:
  "l \<in> set (readlines_from cur s) \<Longrightarrow> set l \<subseteq> set cur \<union> set s"
proof (induction s arbitrary: cur)
  case Nil
  then show ?case by (auto split: if_splits)
next
  case (Cons c s)
  show ?case
  proof (cases "c = LF")
    case True
    with Cons.prems have "l = cur @ [c] \<or> l \<in> set (readlines_from [] s)" by simp
    then show ?thesis using Cons.IH[of "[]"] by auto
  next
    case False
    with Cons.prems have "l \<in> set (readlines_from (cur @ [c]) s)" by simp
    then show ?thesis using Cons.IH[of "cur @ [c]"] by auto
  qed
qed

lemma contains_chars: "contains sub s \<Longrightarrow> set sub \<subseteq> set s"
proof (induction s)
  case Nil
  then show ?case by simp
next
  case (Cons c s)
  from Cons.prems have "startswith (c # s) sub \<or> contains sub s" by simp
  then show ?case
  proof
    assume "startswith (c # s) sub"
    then have "sub = take (length sub) (c # s)" by (simp add: startswith_def)
    then have "set sub \<subseteq> set (c # s)" by (metis set_take_subset)
    then show ?thesis .
  next
    assume "contains sub s"
    with Cons.IH show ?thesis by auto
  qed
qed

lemma count_name_lines_append:
  "count_name_lines (xs @ ys) = count_name_lines xs + count_name_lines ys"
  by (simp add: count_name_lines_def)

lemma count_name_lines_without_m:
  assumes "CHR ''m'' \<notin> set h"
  shows "count_name_lines (readlines_from [] h) = 0"
proof -
  have "\<not> contains ''name:'' l" if "l \<in> set (readlines_from [] h)" for l
  proof
    assume "contains ''name:'' l"
    then have "CHR ''m'' \<in> set l" using contains_chars by fastforce
    with readlines_from_chars[OF that] assms show False by auto
  qed
  then show ?thesis by (simp add: count_name_lines_def)
qed

lemma artifact_text_split: "artifact_text t results = artifact_header t results @ results"
  by (simp add: artifact_text_def artifact_header_def)

lemma artifact_header_chars:
  "CHR ''m'' \<notin> set (artifact_header t results)" "CR \<notin> set (artifact_header t results)"
  "artifact_header t results \<noteq> []" "last (artifact_header t results) = LF"
  by (simp_all add: artifact_header_def plain_strftime_header plain_digits)

lemma count_name_lines_artifact:
  "count_name_lines (readlines (artifact_text t results)) = count_name_lines (readlines results)"
proof -
  let ?h = "artifact_header t results"
  have "readlines (artifact_text t results) = readlines_from [] (?h @ universal_newlines results)"
    by (simp add: readlines_def artifact_text_split universal_newlines_append artifact_header_chars)
  also have "\<dots> = readlines_from [] ?h @ readlines_from [] (universal_newlines results)"
    by (rule readlines_from_append) (rule artifact_header_chars)+
  finally show ?thesis
    by (simp add: count_name_lines_append count_name_lines_without_m artifact_header_chars
                  readlines_def)
qed

subsection \<open>The files a run leaves\<close>

lemma process_metrics_batch_files:
  "(case fst (process_metrics_batch dumps convert nm b tid w) of
      Inl e \<Rightarrow> files (snd (process_metrics_batch dumps convert nm b tid w)) = files w
    | Inr (r, p, k) \<Rightarrow>
        files (snd (process_metrics_batch dumps convert nm b tid w))
          = store p (artifact_text (clock w (Suc (ticks w))) r) (files w)
        \<and> p = artifact_path (clock w (ticks w))
        \<and> convert (dumps b) = Inr r \<and> k = length b)"
  by (simp add: process_metrics_batch_def save_conversion_results_def now_def artifact_path_def
                Let_def split: sum.splits option.splits)

lemma artifact_path_in_folder: "in_folder ''uc_converted_metrics'' (artifact_path t)"
  unfolding artifact_path_def by (rule saved_path_in_folder)

lemma process_metrics_batch_grows:
  "map_of (files w) p \<noteq> None \<Longrightarrow>
   map_of (files (snd (process_metrics_batch dumps convert nm b tid w))) p \<noteq> None"
  using process_metrics_batch_files[of dumps convert nm b tid w]
  by (auto simp: map_of_store split: sum.splits)

lemma run_workers_grows:
  "map_of (files w) p \<noteq> None \<Longrightarrow>
   map_of (files (snd (run_workers dumps convert bs order futures w))) p \<noteq> None"
proof (induction order arbitrary: futures w)
  case Nil
  then show ?case by simp
next
  case (Cons j order)
  show ?case
  proof (cases "1 \<le> j \<and> j \<le> length bs \<and> futures j = None")
    case True
    let ?P = "process_metrics_batch dumps convert (batch_label j) (bs ! (j - 1)) j w"
    have run: "run_workers dumps convert bs (j # order) futures w =
          run_workers dumps convert bs order (futures(j \<mapsto> fst ?P)) (snd ?P)"
      using True by (intro run_workers_run) simp_all
    have "map_of (files (snd ?P)) p \<noteq> None"
      using Cons.prems by (rule process_metrics_batch_grows)
    then have "map_of (files (snd (run_workers dumps convert bs order (futures(j \<mapsto> fst ?P)) (snd ?P)))) p \<noteq> None"
      by (rule Cons.IH)
    then show ?thesis unfolding run .
  next
    case False
    from Cons.IH[where futures=futures and w=w, OF Cons.prems]
    show ?thesis
      unfolding run_workers_skip[where futures=futures and j=j and bs=bs, OF False] .
  qed
qed

lemma run_workers_contents:
  "map_of (files (snd (run_workers dumps convert bs order futures w))) p = map_of (files w) p
   \<or> (\<exists>i r t. new_artifact futures (fst (run_workers dumps convert bs order futures w)) i r p
        \<and> map_of (files (snd (run_workers dumps convert bs order futures w))) p
            = Some (artifact_text t r))"
proof (induction order arbitrary: futures w)
  case Nil
  then show ?case by simp
next
  case (Cons j order)
  show ?case
  proof (cases "1 \<le> j \<and> j \<le> length bs \<and> futures j = None")
    case True
    let ?P = "process_metrics_batch dumps convert (batch_label j) (bs ! (j - 1)) j w"
    let ?F = "futures(j \<mapsto> fst ?P)"
    let ?R = "run_workers dumps convert bs order ?F (snd ?P)"
    have run: "run_workers dumps convert bs (j # order) futures w = ?R"
      using True by (intro run_workers_run) simp_all
    have keep: "fst ?R j = Some (fst ?P)"
      using run_workers_keeps[of ?F j dumps convert bs order "snd ?P"] by simp
    from Cons.IH[of ?F "snd ?P"]
    consider (same) "map_of (files (snd ?R)) p = map_of (files (snd ?P)) p"
      | (new) i r t where "new_artifact ?F (fst ?R) i r p"
          "map_of (files (snd ?R)) p = Some (artifact_text t r)"
      by blast
    then have "map_of (files (snd ?R)) p = map_of (files w) p
       \<or> (\<exists>i r t. new_artifact futures (fst ?R) i r p
            \<and> map_of (files (snd ?R)) p = Some (artifact_text t r))"
    proof cases
      case new
      from new(1) have "new_artifact futures (fst ?R) i r p"
        by (auto simp: new_artifact_def split: if_splits)
      with new(2) show ?thesis by blast
    next
      case same
      show ?thesis
      proof (cases "fst ?P")
        case (Inl e)
        then have "files (snd ?P) = files w"
          using process_metrics_batch_files[of dumps convert "batch_label j" "bs ! (j - 1)" j w]
          by simp
        with same show ?thesis by simp
      next
        case (Inr x)
        obtain r q k where x: "x = (r, q, k)" by (cases x) auto
        with Inr have st: "files (snd ?P) = store q (artifact_text (clock w (Suc (ticks w))) r) (files w)"
          using process_metrics_batch_files[of dumps convert "batch_label j" "bs ! (j - 1)" j w]
          by simp
        show ?thesis
        proof (cases "p = q")
          case False
          with same st show ?thesis by (simp add: map_of_store)
        next
          case True
          have "new_artifact futures (fst ?R) j r p"
            using \<open>1 \<le> j \<and> j \<le> length bs \<and> futures j = None\<close> keep Inr x True
            by (simp add: new_artifact_def)
          moreover have "map_of (files (snd ?R)) p = Some (artifact_text (clock w (Suc (ticks w))) r)"
            using same st True by (simp add: map_of_store)
          ultimately show ?thesis by blast
        qed
      qed
    qed
    then show ?thesis unfolding run .
  next
    case False
    from Cons.IH[of futures w]
    show ?thesis
      unfolding run_workers_skip[where futures=futures and j=j and bs=bs, OF False] .
  qed
qed

lemma run_workers_new_artifact:
  assumes "new_artifact futures (fst (run_workers dumps convert bs order futures w)) i r p"
  shows "map_of (files (snd (run_workers dumps convert bs order futures w))) p \<noteq> None
       \<and> in_folder ''uc_converted_metrics'' p
       \<and> convert (dumps (bs ! (i - 1))) = Inr r
       \<and> 1 \<le> i \<and> i \<le> length bs"
  using assms
proof (induction order arbitrary: futures w)
  case Nil
  then show ?case by (auto simp: new_artifact_def)
next
  case (Cons j order)
  show ?case
  proof (cases "1 \<le> j \<and> j \<le> length bs \<and> futures j = None")
    case True
    let ?P = "process_metrics_batch dumps convert (batch_label j) (bs ! (j - 1)) j w"
    let ?F = "futures(j \<mapsto> fst ?P)"
    let ?R = "run_workers dumps convert bs order ?F (snd ?P)"
    have run: "run_workers dumps convert bs (j # order) futures w = ?R"
      using True by (intro run_workers_run) simp_all
    have keep: "fst ?R j = Some (fst ?P)"
      using run_workers_keeps[of ?F j dumps convert bs order "snd ?P"] by simp
    from Cons.prems have na: "new_artifact futures (fst ?R) i r p" unfolding run .
    have "map_of (files (snd ?R)) p \<noteq> None
       \<and> in_folder ''uc_converted_metrics'' p
       \<and> convert (dumps (bs ! (i - 1))) = Inr r
       \<and> 1 \<le> i \<and> i \<le> length bs"
    proof (cases "i = j")
      case False
      with na have "new_artifact ?F (fst ?R) i r p" by (simp add: new_artifact_def)
      then show ?thesis by (rule Cons.IH)
    next
      case same: True
      with na keep obtain k where out: "fst ?P = Inr (r, p, k)"
        by (auto simp: new_artifact_def)
      with process_metrics_batch_files[of dumps convert "batch_label j" "bs ! (j - 1)" j w]
      have st: "files (snd ?P) = store p (artifact_text (clock w (Suc (ticks w))) r) (files w)"
        and pp: "p = artifact_path (clock w (ticks w))"
        and cv: "convert (dumps (bs ! (j - 1))) = Inr r"
        by simp_all
      have "map_of (files (snd ?P)) p \<noteq> None" unfolding st by (simp add: map_of_store)
      then have "map_of (files (snd ?R)) p \<noteq> None" by (rule run_workers_grows)
      moreover have "in_folder ''uc_converted_metrics'' p"
        unfolding pp by (rule artifact_path_in_folder)
      ultimately show ?thesis using cv same True by simp
    qed
    then show ?thesis unfolding run .
  next
    case False
    from Cons.prems have "new_artifact futures (fst (run_workers dumps convert bs order futures w)) i r p"
      unfolding run_workers_skip[where futures=futures and j=j and bs=bs, OF False] .
    from Cons.IH[OF this]
    show ?thesis
      unfolding run_workers_skip[where futures=futures and j=j and bs=bs, OF False] .
  qed
qed

subsection \<open>From the run to the combined total\<close>

lemma literal_default_folder: "literal_folder ''uc_converted_metrics''"
  by (simp add: literal_folder_def startswith_def)

lemma sum_list_sort: "sum_list (map f (sort xs)) = sum_list (map (f :: string \<Rightarrow> nat) xs)"
proof -
  have "mset (map f (sort xs)) = mset (map f xs)" by simp
  then show ?thesis by (metis sum_mset_sum_list)
qed

text \<open>
  Claim C8, as amended. Take a run over at least one batch in which every worker succeeds
  and no two entries name the same artifact, started when the default folder held no
  artifact, with a translator whose text for a batch has exactly as many lines containing
  \<open>name:\<close> as the batch has units, and let the combined file be one that can be opened.
  Then the combiner, run on the state the orchestrator leaves, returns the path of a combined
  file whose text ends with the footer that reports the sum of the entries' unit counts as
  the total and the number of batches as the number of files.
\<close>

theorem combined_total_matches_counts:
  assumes "bs \<noteq> []" and "0 < max_workers"
    and "mset save_order = mset [1..<Suc (length bs)]"
    and "mset completion_order = mset [1..<Suc (length bs)]"
    and run: "process_batches_parallel dumps convert bs max_workers save_order completion_order w
                = (Inr outs, w1)"
    and ok: "\<forall>r \<in> set outs. r_error r = None"
    and names: "distinct (map r_file outs)"
    and fresh: "\<forall>path \<in> set (map fst (files w)). \<not> in_folder ''uc_converted_metrics'' path"
    and marks: "\<forall>b \<in> set bs. \<forall>translated. convert (dumps b) = Inr translated \<longrightarrow>
                  count_name_lines (readlines translated) = length b"
    and can_open: "open_error w1 (os_path_join ''uc_converted_metrics''
           (''combined_all_metrics_'' @ strftime_file (clock w1 (ticks w1)) @ ''.txt'')) = None"
  shows "\<exists>path w2 body.
      combine_all_results wildcard_glob ''uc_converted_metrics'' w1 = (Inr (Some path), w2)
    \<and> map_of (files w2) path =
        Some (body @ combined_footer (clock w1 (ticks w1 + 2))
                (sum_list (map r_count outs)) (length bs))"
proof -
  let ?F = "''uc_converted_metrics''"
  let ?n = "length bs"
  let ?run = "run_workers dumps convert bs save_order (\<lambda>i. None) w"
  let ?futs = "fst ?run"
  let ?g = "\<lambda>i. result_entry i (the (?futs i))"
  define R where "R k = fst (projr (the (?futs (Suc k))))" for k
  define P where "P k = fst (snd (projr (the (?futs (Suc k)))))" for k
  let ?G = "glob_artifacts wildcard_glob ?F w1"
  let ?f = "\<lambda>q. count_name_lines (readlines (the (map_of (files w1) q)))"
  have so: "set save_order = {1..<Suc ?n}"
    using assms(3) by (metis mset_eq_setD set_upt)
  have sorted_run: "process_batches_parallel dumps convert bs max_workers save_order completion_order w
      = (Inr (map ?g [1..<Suc ?n]), snd ?run)"
    by (rule process_batches_parallel_sorted[OF assms(1-4)])
  with run have outs: "outs = map ?g [1..<Suc ?n]" and w1: "w1 = snd ?run" by simp_all
  have len: "length outs = ?n" unfolding outs by (simp del: upt_Suc)
  have nth: "outs ! k = ?g (Suc k)" if "k < ?n" for k
    unfolding outs using that by (simp add: nth_map_upt del: upt_Suc)
  have succ: "\<exists>c. ?futs (Suc k) = Some (Inr (R k, P k, c))" if k: "k < ?n" for k
  proof -
    have "?futs (Suc k) \<noteq> None"
      using run_workers_dom[of dumps convert bs save_order "\<lambda>i. None" w "Suc k"] so k by auto
    then obtain x where x: "?futs (Suc k) = Some x" by auto
    have "outs ! k \<in> set outs" using k len by simp
    with ok have "r_error (outs ! k) = None" by blast
    with nth[OF k] x obtain y where "x = Inr y" by (cases x) auto
    with x show ?thesis by (cases y) (simp add: R_def P_def)
  qed
  have new: "new_artifact (\<lambda>i. None) ?futs (Suc k) (R k) (P k)" if "k < ?n" for k
    using succ[OF that] by (simp add: new_artifact_def)
  have facts: "map_of (files w1) (P k) \<noteq> None \<and> in_folder ?F (P k)
       \<and> convert (dumps (bs ! k)) = Inr (R k)" if "k < ?n" for k
    using run_workers_new_artifact[OF new[OF that]] by (simp add: w1)
  have rfile: "r_file (outs ! k) = Some (P k)" and cnt: "r_count (outs ! k) = length (bs ! k)"
    if k: "k < ?n" for k
  proof -
    from succ[OF k] obtain c where c: "?futs (Suc k) = Some (Inr (R k, P k, c))" by blast
    then show "r_file (outs ! k) = Some (P k)" using nth[OF k] by simp
    from run_workers_outcome[OF c] obtain wk where
      "Inr (R k, P k, c) = fst (process_metrics_batch dumps convert (batch_label (Suc k)) (bs ! (Suc k - 1)) (Suc k) wk)"
      by auto
    then have "c = length (bs ! k)"
      using process_metrics_batch_count[of dumps convert "batch_label (Suc k)" "bs ! k" "Suc k" wk "R k" "P k" c]
      by simp
    then show "r_count (outs ! k) = length (bs ! k)" using nth[OF k] c by simp
  qed
  have inj: "inj_on P {..<?n}"
  proof (rule inj_onI)
    fix a b assume ab: "a \<in> {..<?n}" "b \<in> {..<?n}" "P a = P b"
    then have e: "map r_file outs ! a = map r_file outs ! b"
      using rfile len by simp
    have "a < length (map r_file outs)" "b < length (map r_file outs)"
      using ab len by simp_all
    with names e show "a = b" by (simp only: nth_eq_iff_index_eq)
  qed
  have not_old: "map_of (files w) q = None" if "in_folder ?F q" for q
  proof (rule ccontr)
    assume "map_of (files w) q \<noteq> None"
    then have "q \<in> fst ` set (files w)" by (simp add: map_of_eq_None_iff)
    with fresh that show False by auto
  qed
  have origin: "\<exists>k t. k < ?n \<and> q = P k \<and> map_of (files w1) q = Some (artifact_text t (R k))"
    if q: "in_folder ?F q" "map_of (files w1) q \<noteq> None" for q
  proof -
    from run_workers_contents[of dumps convert bs save_order "\<lambda>i. None" w q]
    consider "map_of (files w1) q = map_of (files w) q"
      | i r t where "new_artifact (\<lambda>i. None) ?futs i r q" "map_of (files w1) q = Some (artifact_text t r)"
      unfolding w1 by blast
    then show ?thesis
    proof cases
      case 1
      with not_old[OF q(1)] q(2) show ?thesis by simp
    next
      case 2
      from run_workers_new_artifact[OF 2(1)] have i: "1 \<le> i" "i \<le> ?n" by simp_all
      then obtain k where k: "i = Suc k" "k < ?n" by (cases i) auto
      from 2(1) obtain c where "?futs (Suc k) = Some (Inr (r, q, c))"
        by (auto simp: new_artifact_def k)
      with succ[OF k(2)] have "r = R k" "q = P k" by auto
      with 2(2) k(2) show ?thesis by blast
    qed
  qed
  have G: "?G = filter (in_folder ?F) (remdups (map fst (files w1)))"
    by (rule glob_artifacts_literal[OF literal_default_folder])
  have setG: "set ?G = P ` {..<?n}"
  proof
    show "set ?G \<subseteq> P ` {..<?n}"
    proof
      fix q assume "q \<in> set ?G"
      then have "in_folder ?F q" "q \<in> fst ` set (files w1)" by (simp_all add: G)
      then have "in_folder ?F q" "map_of (files w1) q \<noteq> None"
        by (simp_all add: map_of_eq_None_iff)
      from origin[OF this] show "q \<in> P ` {..<?n}" by auto
    qed
    show "P ` {..<?n} \<subseteq> set ?G"
    proof
      fix q assume "q \<in> P ` {..<?n}"
      then obtain k where k: "k < ?n" "q = P k" by auto
      from facts[OF k(1)] have "in_folder ?F q" "q \<in> fst ` set (files w1)"
        by (simp_all add: k(2) map_of_eq_None_iff)
      then show "q \<in> set ?G" by (simp add: G)
    qed
  qed
  have distG: "distinct ?G" by (simp add: G)
  have lenG: "length ?G = ?n"
  proof -
    have "length ?G = card (set ?G)" using distG by (simp add: distinct_card)
    also have "\<dots> = card {..<?n}" unfolding setG using inj by (rule card_image)
    finally show ?thesis by simp
  qed
  have val: "?f (P k) = length (bs ! k)" if k: "k < ?n" for k
  proof -
    from facts[OF k] have a: "in_folder ?F (P k)" "map_of (files w1) (P k) \<noteq> None"
      and cv: "convert (dumps (bs ! k)) = Inr (R k)" by simp_all
    from origin[OF a] obtain k' t where k': "k' < ?n" "P k = P k'"
      "map_of (files w1) (P k) = Some (artifact_text t (R k'))" by blast
    from inj k k'(1,2) have "k' = k" by (auto dest: inj_onD)
    with k'(3) have "?f (P k) = count_name_lines (readlines (R k))"
      by (simp add: count_name_lines_artifact)
    also have "\<dots> = length (bs ! k)"
      using marks cv k by (metis nth_mem)
    finally show ?thesis .
  qed
  have "sum_list (map ?f (sort ?G)) = sum_list (map ?f ?G)" by (rule sum_list_sort)
  also have "\<dots> = sum ?f (set ?G)" using distG by (rule sum_list_distinct_conv_sum_set)
  also have "\<dots> = sum (?f \<circ> P) {..<?n}" unfolding setG using inj by (rule sum.reindex)
  also have "\<dots> = (\<Sum>k<?n. r_count (outs ! k))"
    by (rule sum.cong) (simp_all add: val cnt)
  also have "\<dots> = sum_list (map r_count outs)"
    using len by (simp add: sum_list_sum_nth atLeast0LessThan)
  finally have total: "sum_list (map ?f (sort ?G)) = sum_list (map r_count outs)" .
  have neG: "?G \<noteq> []" using lenG assms(1) by auto
  from combine_all_results_total[OF literal_default_folder neG can_open]
  show ?thesis unfolding total lenG .
qed

text \<open>The equations that count the marked lines of a concrete text.\<close>

lemmas text_eval =
  readlines_def count_name_lines_def startswith_def

theorem combined_total_matches_counts_witness:
  "\<exists>outs w1 path w2 body.
      process_batches_parallel concat
        (\<lambda>p. if p = ''ab'' then Inr (''- name: a'' @ [LF] @ ''  expr: 1'' @ [LF] @ ''- name: b'')
              else Inr ''- name: c'')
        [[''a'', ''b''], [''c'']] 2 [2, 1] [1, 2]
        \<lparr>files = [], open_error = (\<lambda>p. None),
         clock = (\<lambda>n. \<lparr>year = 2025, month = 11, day = 4, hour = 10, minute = 0, second = n,
                        microsecond = 0\<rparr>),
         ticks = 0\<rparr> = (Inr outs, w1)
    \<and> sum_list (map r_count outs) = 3
    \<and> combine_all_results (\<lambda>fs pattern. []) ''uc_converted_metrics'' w1 = (Inr (Some path), w2)
    \<and> map_of (files w2) path =
        Some (body @ combined_footer
                \<lparr>year = 2025, month = 11, day = 4, hour = 10, minute = 0, second = 6,
                 microsecond = 0\<rparr> 3 2)"
proof -
  let ?bs = "[[''a'', ''b''], [''c'']]"
  let ?ra = "''- name: a'' @ [LF] @ ''  expr: 1'' @ [LF] @ ''- name: b''"
  let ?convert = "\<lambda>p. if p = ''ab'' then Inr ?ra else Inr ''- name: c''"
  let ?clock = "\<lambda>n. \<lparr>year = 2025, month = 11, day = 4, hour = 10, minute = 0, second = n,
                      microsecond = 0\<rparr>"
  let ?w = "\<lparr>files = [], open_error = (\<lambda>p. None), clock = ?clock, ticks = 0\<rparr>"
  let ?outs = "[\<lparr>r_batch = ''Batch 1'', r_batch_num = 1,
                 r_file = Some ''uc_converted_metrics/converted_metrics_20251104_100002.txt'',
                 r_count = 2, r_error = None\<rparr>,
                \<lparr>r_batch = ''Batch 2'', r_batch_num = 2,
                 r_file = Some ''uc_converted_metrics/converted_metrics_20251104_100000.txt'',
                 r_count = 1, r_error = None\<rparr>]"
  let ?w1 = "\<lparr>files = [(''uc_converted_metrics/converted_metrics_20251104_100000.txt'',
                       artifact_text (?clock 1) ''- name: c''),
                      (''uc_converted_metrics/converted_metrics_20251104_100002.txt'',
                       artifact_text (?clock 3) ?ra)],
              open_error = (\<lambda>p. None), clock = ?clock, ticks = 4\<rparr>"
  have h1: "?bs \<noteq> []" by simp
  have h2: "(0::int) < 2" by simp
  have u: "[1..<Suc (length ?bs)] = [1, 2]" by (simp add: upt_rec numeral_eq_Suc)
  have h3: "mset [2, 1] = mset [1..<Suc (length ?bs)]" unfolding u by simp
  have h4: "mset [1, 2] = mset [1..<Suc (length ?bs)]" unfolding u by simp
  have run: "process_batches_parallel concat ?convert ?bs 2 [2, 1] [1, 2] ?w = (Inr ?outs, ?w1)"
    by (simp add: engine_eval numeral_3_eq_3[symmetric])
  have ok: "\<forall>r \<in> set ?outs. r_error r = None" by simp
  have names: "distinct (map r_file ?outs)" by simp
  have fresh: "\<forall>path \<in> set (map fst (files ?w)). \<not> in_folder ''uc_converted_metrics'' path"
    by simp
  have marks: "\<forall>b \<in> set ?bs. \<forall>translated. ?convert (concat b) = Inr translated \<longrightarrow>
                  count_name_lines (readlines translated) = length b"
    by (simp add: text_eval)
  have can_open: "open_error ?w1 (os_path_join ''uc_converted_metrics''
           (''combined_all_metrics_'' @ strftime_file (clock ?w1 (ticks ?w1)) @ ''.txt'')) = None"
    by simp
  from combined_total_matches_counts[OF h1 h2 h3 h4 run ok names fresh marks can_open,
         of "\<lambda>fs pattern. []"]
  obtain path w2 body where
    "combine_all_results (\<lambda>fs pattern. []) ''uc_converted_metrics'' ?w1 = (Inr (Some path), w2)"
    "map_of (files w2) path =
        Some (body @ combined_footer (clock ?w1 (ticks ?w1 + 2))
                (sum_list (map r_count ?outs)) (length ?bs))"
    by blast
  then have "combine_all_results (\<lambda>fs pattern. []) ''uc_converted_metrics'' ?w1 = (Inr (Some path), w2)
    \<and> map_of (files w2) path = Some (body @ combined_footer (?clock 6) 3 2)"
    by (simp add: numeral_2_eq_2[symmetric])
  with run show ?thesis by (intro exI[of _ ?outs] exI[of _ ?w1] exI[of _ path] exI[of _ w2] exI[of _ body]) simp
qed

text \<open>
  The claim as the specification words it (whenever every worker succeeds) fails, because
  the combiner counts lines with \<open>name:\<close> and not units. One batch of two units whose
  translation has a single such line succeeds with unit count \<open>2\<close>, and the footer of the
  combined file reports the total \<open>1\<close>, which is a different text from the footer with \<open>2\<close>.
\<close>

theorem combined_total_differs_counterexample:
  "\<exists>outs w1 path w2 body.
      process_batches_parallel concat (\<lambda>p. Inr ''- name: both'') [[''a'', ''b'']] 4 [1] [1]
        \<lparr>files = [], open_error = (\<lambda>p. None),
         clock = (\<lambda>n. \<lparr>year = 2025, month = 11, day = 4, hour = 10, minute = 0, second = n,
                        microsecond = 0\<rparr>),
         ticks = 0\<rparr> = (Inr outs, w1)
    \<and> map r_error outs = [None]
    \<and> sum_list (map r_count outs) = 2
    \<and> combine_all_results (\<lambda>fs pattern. []) ''uc_converted_metrics'' w1 = (Inr (Some path), w2)
    \<and> map_of (files w2) path =
        Some (body @ combined_footer
                \<lparr>year = 2025, month = 11, day = 4, hour = 10, minute = 0, second = 4,
                 microsecond = 0\<rparr> 1 1)
    \<and> length (combined_footer
                \<lparr>year = 2025, month = 11, day = 4, hour = 10, minute = 0, second = 4,
                 microsecond = 0\<rparr> 1 1)
        = length (combined_footer
                \<lparr>year = 2025, month = 11, day = 4, hour = 10, minute = 0, second = 4,
                 microsecond = 0\<rparr> 2 1)
    \<and> combined_footer
          \<lparr>year = 2025, month = 11, day = 4, hour = 10, minute = 0, second = 4, microsecond = 0\<rparr> 1 1
        \<noteq> combined_footer
          \<lparr>year = 2025, month = 11, day = 4, hour = 10, minute = 0, second = 4, microsecond = 0\<rparr> 2 1"
proof -
  let ?clock = "\<lambda>n. \<lparr>year = 2025, month = 11, day = 4, hour = 10, minute = 0, second = n,
                      microsecond = 0\<rparr>"
  let ?w = "\<lparr>files = [], open_error = (\<lambda>p. None), clock = ?clock, ticks = 0\<rparr>"
  let ?p = "''uc_converted_metrics/converted_metrics_20251104_100000.txt''"
  let ?outs = "[\<lparr>r_batch = ''Batch 1'', r_batch_num = 1, r_file = Some ?p,
                 r_count = 2, r_error = None\<rparr>]"
  let ?w1 = "\<lparr>files = [(?p, artifact_text (?clock 1) ''- name: both'')],
              open_error = (\<lambda>p. None), clock = ?clock, ticks = 2\<rparr>"
  let ?wg = "\<lambda>(fs :: (string \<times> string) list) (pattern :: string). [] :: string list"
  have run: "process_batches_parallel concat (\<lambda>p. Inr ''- name: both'') [[''a'', ''b'']] 4 [1] [1] ?w
           = (Inr ?outs, ?w1)"
    by (simp add: engine_eval)
  have inf: "in_folder ''uc_converted_metrics'' ?p"
    by (simp add: in_folder_def os_path_join_def startswith_def is_batch_artifact_def)
  have glob: "glob_artifacts ?wg ''uc_converted_metrics'' ?w1 = [?p]"
    using inf by (simp add: glob_artifacts_literal[OF literal_default_folder])
  have cnt: "count_name_lines (readlines (the (map_of (files ?w1) ?p))) = 1"
    by (simp add: count_name_lines_artifact) (simp add: text_eval)
  have ne: "glob_artifacts ?wg ''uc_converted_metrics'' ?w1 \<noteq> []" by (simp only: glob) simp
  have can_open: "open_error ?w1 (os_path_join ''uc_converted_metrics''
           (''combined_all_metrics_'' @ strftime_file (clock ?w1 (ticks ?w1)) @ ''.txt'')) = None"
    by simp
  from combine_all_results_total[OF literal_default_folder ne can_open]
  obtain path w2 body where
    c: "combine_all_results ?wg ''uc_converted_metrics'' ?w1 = (Inr (Some path), w2)"
    and m: "map_of (files w2) path =
        Some (body @ combined_footer (clock ?w1 (ticks ?w1 + 2))
                (sum_list (map (\<lambda>p. count_name_lines (readlines (the (map_of (files ?w1) p))))
                               (sort (glob_artifacts ?wg ''uc_converted_metrics'' ?w1))))
                (length (glob_artifacts ?wg ''uc_converted_metrics'' ?w1)))"
    by blast
  from m have m': "map_of (files w2) path = Some (body @ combined_footer (?clock 4) 1 1)"
    unfolding glob using cnt by simp
  have d: "length (combined_footer (?clock 4) 1 1) = length (combined_footer (?clock 4) 2 1)"
    "combined_footer (?clock 4) 1 1 \<noteq> combined_footer (?clock 4) 2 1"
    by (simp_all add: combined_footer_def str_nat.simps digit_char_def)
  from run c m' d show ?thesis
    by (intro exI[of _ ?outs] exI[of _ ?w1] exI[of _ path] exI[of _ w2] exI[of _ body]) simp
qed

end
